theory Spec2Isabelle
  imports Complex_Main "HOL-Library.Extended_Nat" "HOL-Library.Sublist"
begin

section \<open>Favorites store (hooks/useFavorites.ts)\<close>

text \<open>
  \<^verbatim>\<open>toggleFavorite\<close> copies the previous \<^verbatim>\<open>Set<string>\<close>, deletes the id when it is a
  member and adds it otherwise. The favourites are used as a set (membership, size); the
  insertion order a JavaScript \<^verbatim>\<open>Set\<close> also keeps is not part of the model.
\<close>

definition toggleFavorite :: "string set \<Rightarrow> string \<Rightarrow> string set" where
  "toggleFavorite prev imageId =
     (let next = prev in
      if imageId \<in> next then next - {imageId} else insert imageId next)"

definition isFavorite :: "string set \<Rightarrow> string \<Rightarrow> bool" where
  "isFavorite favorites imageId = (imageId \<in> favorites)"


section \<open>View routing (hooks/useViewRouting.ts)\<close>

record view_routing =
  viewTitle :: string
  viewSubtitle :: string
  isFavoritesView :: bool
  isTimelineView :: bool
  showGrid :: bool
  showFaces :: bool

definition viewTitleOf :: "string \<Rightarrow> string" where
  "viewTitleOf activeView =
     (if activeView = ''all'' then ''All Photos''
      else if activeView = ''faces'' then ''People''
      else if activeView = ''favorites'' then ''Favorites''
      else if activeView = ''timeline'' then ''Timeline''
      else if activeView = ''memories'' then ''Memories''
      else ''All Photos'')"

definition viewSubtitleOf :: "string \<Rightarrow> string" where
  "viewSubtitleOf activeView =
     (if activeView = ''all'' then
        ''Seamlessly browse every asset in your shared folder before layering on face clusters and smart albums.''
      else if activeView = ''faces'' then
        ''Browse discovered people clusters and drill into the faces assigned to each person.''
      else if activeView = ''favorites'' then
        ''All the images you loved in one dedicated board. Favorites stay synced across sessions.''
      else if activeView = ''timeline'' then ''''
      else if activeView = ''memories'' then
        ''Smart collections curated by events, places, and people. Relive your highlights automatically.''
      else ''Feature coming soon. Keep browsing in All Photos while we finish this workspace.'')"

definition useViewRouting :: "string \<Rightarrow> view_routing" where
  "useViewRouting activeView =
     (let isFav = (activeView = ''favorites'');
          isTime = (activeView = ''timeline'')
      in \<lparr> viewTitle = viewTitleOf activeView,
           viewSubtitle = viewSubtitleOf activeView,
           isFavoritesView = isFav,
           isTimelineView = isTime,
           showGrid = (activeView = ''all'' \<or> isFav \<or> isTime),
           showFaces = (activeView = ''faces'') \<rparr>)"

text \<open>The title and subtitle of the \<^verbatim>\<open>default:\<close> branches of the two switches.\<close>

definition defaultTitle :: string where
  "defaultTitle = ''All Photos''"

definition defaultSubtitle :: string where
  "defaultSubtitle = ''Feature coming soon. Keep browsing in All Photos while we finish this workspace.''"

definition knownViews :: "string set" where
  "knownViews = {''all'', ''faces'', ''favorites'', ''timeline'', ''memories''}"


section \<open>Image listing requests (lib/api.ts)\<close>

text \<open>
  \<^verbatim>\<open>fetchImages\<close> either resolves to an \<^verbatim>\<open>ImageListResponse\<close> or throws.
  \<^verbatim>\<open>request\<close> throws \<^verbatim>\<open>new Error(...)\<close> on a bad status; the callers also
  provide for a thrown value that is no \<^verbatim>\<open>Error\<close>. The backend is not part of the
  sources, so a caller sees it as a function from the requested page and page size to the
  outcome of the request; each loader asks for a page at most once. \<^verbatim>\<open>total\<close> is a
  JavaScript number holding a count; \<open>\<infinity>\<close> stands for \<^verbatim>\<open>Infinity\<close>.
\<close>

datatype thrown = Error string | NonError

record 'a listing =
  items :: "'a list"
  total :: enat

record 'a ImageListResponse = "'a listing" +
  page :: nat
  page_size :: nat

type_synonym 'a fetcher = "nat \<Rightarrow> nat \<Rightarrow> thrown + 'a ImageListResponse"

text \<open>
  \<^verbatim>\<open>fetchAllImages\<close>. The loop has no bound of its own: with a backend that keeps
  answering with non-empty pages and a total that stays ahead it never ends, so the model
  is a partial function, \<open>None\<close> standing for a call that never settles. A settled call
  is \<open>Inl\<close> when a request threw (the promise rejects) and \<open>Inr\<close> when it returned.
\<close>

partial_function (option) fetchAllLoop ::
  "'a fetcher \<Rightarrow> nat \<Rightarrow> nat \<Rightarrow> enat \<Rightarrow> 'a list \<Rightarrow> (thrown + 'a list \<times> enat) option" where
  "fetchAllLoop fetch batchSize pageNo totalNow itemsNow =
     (if enat (length itemsNow) < totalNow then
        (case fetch pageNo batchSize of
           Inl e \<Rightarrow> Some (Inl e)
         | Inr response \<Rightarrow>
             if items response = [] then Some (Inr (itemsNow @ items response, total response))
             else fetchAllLoop fetch batchSize (pageNo + 1) (total response) (itemsNow @ items response))
      else Some (Inr (itemsNow, totalNow)))"

declare fetchAllLoop.simps [code]

definition fetchAllImages :: "'a fetcher \<Rightarrow> nat \<Rightarrow> (thrown + 'a listing) option" where
  "fetchAllImages fetch batchSize =
     (case fetchAllLoop fetch batchSize 1 \<infinity> [] of
        None \<Rightarrow> None
      | Some (Inl e) \<Rightarrow> Some (Inl e)
      | Some (Inr (itemsNow, totalNow)) \<Rightarrow>
          Some (Inr \<lparr> items = itemsNow,
                      total = (if totalNow \<noteq> \<infinity> then totalNow else enat (length itemsNow)) \<rparr>))"

text \<open>The number of items page \<open>p\<close> carries (none when the request throws).\<close>

definition pageCount :: "'a fetcher \<Rightarrow> nat \<Rightarrow> nat \<Rightarrow> nat" where
  "pageCount fetch pageSize p =
     (case fetch p pageSize of Inl e \<Rightarrow> 0 | Inr response \<Rightarrow> length (items response))"

definition pageItems :: "'a fetcher \<Rightarrow> nat \<Rightarrow> nat \<Rightarrow> 'a list" where
  "pageItems fetch pageSize p =
     (case fetch p pageSize of Inl e \<Rightarrow> [] | Inr response \<Rightarrow> items response)"

text \<open>The items of pages \<open>1, \<dots>, k\<close> of one page size, in page order.\<close>

definition pagesUpTo :: "'a fetcher \<Rightarrow> nat \<Rightarrow> nat \<Rightarrow> 'a list" where
  "pagesUpTo fetch pageSize k = concat (map (pageItems fetch pageSize) [1..<Suc k])"

text \<open>
  Page \<open>k\<close> ends the loop of \<^verbatim>\<open>fetchAllImages\<close>: it arrives and is empty, or with it
  the accumulated count reaches the total it reports.
\<close>

definition stopsAt :: "'a fetcher \<Rightarrow> nat \<Rightarrow> nat \<Rightarrow> bool" where
  "stopsAt fetch pageSize k =
     (case fetch k pageSize of
        Inl e \<Rightarrow> False
      | Inr response \<Rightarrow>
          items response = [] \<or> total response \<le> enat (length (pagesUpTo fetch pageSize k)))"

text \<open>Page \<open>k\<close> arrives, and it does not end the loop.\<close>

definition continuesAt :: "'a fetcher \<Rightarrow> nat \<Rightarrow> nat \<Rightarrow> bool" where
  "continuesAt fetch pageSize k =
     (case fetch k pageSize of
        Inl e \<Rightarrow> False
      | Inr response \<Rightarrow>
          items response \<noteq> [] \<and> enat (length (pagesUpTo fetch pageSize k)) < total response)"


section \<open>Gallery loader (the first effect of App.tsx)\<close>

text \<open>
  The effect runs \<^verbatim>\<open>load\<close>, which awaits the first page and then starts
  \<^verbatim>\<open>loadRemainingPages\<close> without awaiting it. Every \<^verbatim>\<open>setGallery\<close> call yields
  the next gallery state; the model returns the states in the order they are set.

  \<^item> \<open>captured\<close> is \<^verbatim>\<open>gallery.items\<close> as the effect's closure sees it: the items of the
    render that created the effect (empty on mount, the items then on display after a
    refresh).
  \<^item> \<open>cancelled k\<close> is the value of the \<^verbatim>\<open>cancelled\<close> flag when the request for page
    \<open>k\<close> has settled; the flag can only change while a request is awaited.
  \<^item> The background loop has no bound of its own; \<open>n\<close> bounds the number of its
    iterations that are followed.
\<close>

record 'a GalleryState = "'a listing" +
  loading :: bool
  error :: "string option"

definition initialGallery :: "'a GalleryState" where
  "initialGallery = \<lparr> items = [], total = 0, loading = True, error = None \<rparr>"

definition errorMessage :: "thrown \<Rightarrow> string" where
  "errorMessage e = (case e of Error message \<Rightarrow> message | NonError \<Rightarrow> ''Unknown error'')"

fun loadRemainingPagesLoop ::
  "nat \<Rightarrow> 'a fetcher \<Rightarrow> (nat \<Rightarrow> bool) \<Rightarrow> enat \<Rightarrow> nat \<Rightarrow> nat \<Rightarrow> 'a list \<Rightarrow> 'a GalleryState
   \<Rightarrow> 'a GalleryState list" where
  "loadRemainingPagesLoop 0 fetch cancelled totalArg pageSize currentPage itemsNow prev = []"
| "loadRemainingPagesLoop (Suc n) fetch cancelled totalArg pageSize currentPage itemsNow prev =
     (if enat (length itemsNow) < totalArg \<and> \<not> cancelled (currentPage - 1) then
        (case fetch currentPage pageSize of
           Inl e \<Rightarrow> []
         | Inr response \<Rightarrow>
             if \<not> cancelled currentPage \<and> length (items response) > 0 then
               let itemsNext = itemsNow @ items response;
                   g = prev\<lparr> items := itemsNext \<rparr>
               in g # loadRemainingPagesLoop n fetch cancelled totalArg pageSize (currentPage + 1)
                        itemsNext g
             else [])
      else [])"

definition loadRemainingPages ::
  "nat \<Rightarrow> 'a fetcher \<Rightarrow> (nat \<Rightarrow> bool) \<Rightarrow> 'a list \<Rightarrow> enat \<Rightarrow> nat \<Rightarrow> 'a GalleryState
   \<Rightarrow> 'a GalleryState list" where
  "loadRemainingPages n fetch cancelled captured totalArg loaded prev =
     (let pageSize = 60; currentPage = 2; itemsNow = captured
      in loadRemainingPagesLoop n fetch cancelled totalArg pageSize currentPage itemsNow prev)"

definition load ::
  "nat \<Rightarrow> 'a fetcher \<Rightarrow> (nat \<Rightarrow> bool) \<Rightarrow> 'a list \<Rightarrow> 'a GalleryState \<Rightarrow> 'a GalleryState list" where
  "load n fetch cancelled captured prev =
     (let g0 = prev\<lparr> loading := True, error := None \<rparr> in
      case fetch 1 30 of
        Inr firstPage \<Rightarrow>
          if \<not> cancelled 1 then
            let g1 = \<lparr> items = items firstPage, total = total firstPage,
                       loading = False, error = None \<rparr>
            in if total firstPage > enat (length (items firstPage))
               then g0 # g1 # loadRemainingPages n fetch cancelled captured (total firstPage)
                                (length (items firstPage)) g1
               else [g0, g1]
          else [g0]
      | Inl e \<Rightarrow>
          if \<not> cancelled 1 then [g0, g0\<lparr> loading := False, error := Some (errorMessage e) \<rparr>]
          else [g0])"

text \<open>The invariant of the spec's data model: no more items than the total.\<close>

definition countInv :: "'a GalleryState \<Rightarrow> bool" where
  "countInv g = (enat (length (items g)) \<le> total g)"

text \<open>
  A backend with the images \<open>imgs\<close> that answers a request with the slice at offset
  \<open>(page - 1) * page_size\<close>; used for concrete runs.
\<close>

definition offsetBackend :: "'a list \<Rightarrow> 'a fetcher" where
  "offsetBackend imgs p pageSize =
     Inr \<lparr> items = take pageSize (drop ((p - 1) * pageSize) imgs), total = enat (length imgs),
           page = p, page_size = pageSize \<rparr>"

definition failingBackend :: "string \<Rightarrow> 'a fetcher" where
  "failingBackend message p pageSize = Inl (Error message)"

definition neverCancelled :: "nat \<Rightarrow> bool" where
  "neverCancelled k = False"


text \<open>The same backend when it reports no finite total.\<close>

definition noTotalBackend :: "'a list \<Rightarrow> 'a fetcher" where
  "noTotalBackend imgs p pageSize =
     Inr \<lparr> items = take pageSize (drop ((p - 1) * pageSize) imgs), total = \<infinity>,
           page = p, page_size = pageSize \<rparr>"

text \<open>A backend whose first page carries more items than the total it reports.\<close>

definition overfullBackend :: "nat fetcher" where
  "overfullBackend p pageSize =
     Inr \<lparr> items = (if p = 1 then [1, 2] else []), total = 1, page = p, page_size = pageSize \<rparr>"


section \<open>Media URLs (resolveMediaUrl in lib/api.ts)\<close>

text \<open>
  Strings are byte strings (UTF-8). \<^verbatim>\<open>getApiOrigin()\<close> reads the build configuration and
  the browser's location; its result is the parameter \<open>origin\<close>.
\<close>

datatype thumbnail = Flag bool | Small | Medium | Large

fun truthy :: "thumbnail \<Rightarrow> bool" where
  "truthy (Flag b) = b"
| "truthy Small = True"
| "truthy Medium = True"
| "truthy Large = True"

fun sizeOf :: "thumbnail \<Rightarrow> string" where
  "sizeOf (Flag b) = ''medium''"
| "sizeOf Small = ''small''"
| "sizeOf Medium = ''medium''"
| "sizeOf Large = ''large''"

definition startsWith :: "string \<Rightarrow> string \<Rightarrow> bool" where
  "startsWith str searchString = prefix searchString str"

text \<open>\<^verbatim>\<open>String.prototype.replace\<close> with a string pattern: the first occurrence only.\<close>

fun replaceFirst :: "string \<Rightarrow> string \<Rightarrow> string \<Rightarrow> string" where
  "replaceFirst pat rep [] = (if pat = [] then rep else [])"
| "replaceFirst pat rep (c # cs) =
     (if prefix pat (c # cs) then rep @ drop (length pat) (c # cs)
      else c # replaceFirst pat rep cs)"

text \<open>\<^verbatim>\<open>split\<close> at a one-character separator, and \<^verbatim>\<open>join\<close>.\<close>

fun splitOn :: "char \<Rightarrow> string \<Rightarrow> string list" where
  "splitOn sep [] = [[]]"
| "splitOn sep (c # cs) =
     (if c = sep then [] # splitOn sep cs
      else (case splitOn sep cs of [] \<Rightarrow> [[c]] | seg # segs \<Rightarrow> (c # seg) # segs))"

fun joinWith :: "string \<Rightarrow> string list \<Rightarrow> string" where
  "joinWith sep [] = []"
| "joinWith sep [seg] = seg"
| "joinWith sep (seg # segs) = seg @ sep @ joinWith sep segs"

text \<open>
  \<^verbatim>\<open>encodeURIComponent\<close>: letters, digits and \<^verbatim>\<open>- _ . ! ~ * ' ( )\<close> stay, every other
  byte becomes \<^verbatim>\<open>%XX\<close> with upper-case hexadecimal digits.
\<close>

definition unreserved :: "char \<Rightarrow> bool" where
  "unreserved c =
     (let n = (of_char c :: nat) in
      (65 \<le> n \<and> n \<le> 90) \<or> (97 \<le> n \<and> n \<le> 122) \<or> (48 \<le> n \<and> n \<le> 57)
      \<or> c \<in> set ''-_.!~*()'' \<or> n = 39)"

definition hexDigit :: "nat \<Rightarrow> char" where
  "hexDigit n = ''0123456789ABCDEF'' ! (n mod 16)"

definition encodeByte :: "char \<Rightarrow> string" where
  "encodeByte c =
     (if unreserved c then [c]
      else [CHR ''%'', hexDigit ((of_char c :: nat) div 16), hexDigit ((of_char c :: nat) mod 16)])"

definition encodeURIComponent :: "string \<Rightarrow> string" where
  "encodeURIComponent str = concat (map encodeByte str)"

definition resolveMediaUrl :: "string \<Rightarrow> string \<Rightarrow> thumbnail \<Rightarrow> string" where
  "resolveMediaUrl origin path thumbnail =
     (if startsWith path ''http://'' \<or> startsWith path ''https://'' then path
      else
        let normalized = (if startsWith path ''/'' then path else ''/'' @ path) in
        if truthy thumbnail then
          let size = sizeOf thumbnail;
              mediaPath = replaceFirst ''/media/'' [] normalized;
              encodedPath = joinWith ''/'' (map encodeURIComponent (splitOn CHR ''/'' mediaPath))
          in origin @ ''/thumbnails/'' @ size @ ''/'' @ encodedPath
        else
          let pathOnly = replaceFirst ''/media/'' [] normalized;
              encodedPath = joinWith ''/'' (map encodeURIComponent (splitOn CHR ''/'' pathOnly))
          in origin @ ''/media/'' @ encodedPath)"


section \<open>Timeline grouping (hooks/useTimeline.ts)\<close>

text \<open>
  A JavaScript \<^verbatim>\<open>Date\<close> is modelled by its time value: \<open>Some t\<close> for a valid date with
  \<open>t\<close> milliseconds, \<open>None\<close> for \<^verbatim>\<open>Invalid Date\<close>, whose time value is \<^verbatim>\<open>NaN\<close>.
  A number read from a date is modelled the same way, \<open>None\<close> standing for \<^verbatim>\<open>NaN\<close>. What the
  engine computes from a valid date depends on the time zone and the locale of the browser
  and is a parameter of the model: the record below holds the operations the hook uses.
\<close>

type_synonym date = "int option"

record date_env =
  parseDate :: "string \<Rightarrow> date"
  getFullYear :: "int \<Rightarrow> int"
  getMonth :: "int \<Rightarrow> nat"
  getDate :: "int \<Rightarrow> nat"
  toDateString :: "int \<Rightarrow> string"
  dayBefore :: "int \<Rightarrow> int"
  longDayLabel :: "int \<Rightarrow> string"
  shortMonthLabel :: "int \<Rightarrow> string"
  nowDate :: int

text \<open>
  \<open>parseDate\<close> is \<^verbatim>\<open>new Date(str)\<close>, \<open>dayBefore\<close> is \<^verbatim>\<open>setDate(getDate() - 1)\<close> on a
  copy, \<open>longDayLabel\<close> and \<open>shortMonthLabel\<close> are the two \<^verbatim>\<open>toLocaleDateString\<close> calls, and
  \<open>nowDate\<close> is \<^verbatim>\<open>new Date()\<close>, always valid. The accessors of the record take the time
  value of a valid date; on \<^verbatim>\<open>Invalid Date\<close> the numeric accessors give \<^verbatim>\<open>NaN\<close> and the
  string accessors give \<^verbatim>\<open>Invalid Date\<close>.
\<close>

definition fullYearOf :: "date_env \<Rightarrow> date \<Rightarrow> int option" where
  "fullYearOf env d = map_option (getFullYear env) d"

definition monthOf :: "date_env \<Rightarrow> date \<Rightarrow> int option" where
  "monthOf env d = map_option (\<lambda>t. int (getMonth env t)) d"

definition dayOfMonthOf :: "date_env \<Rightarrow> date \<Rightarrow> int option" where
  "dayOfMonthOf env d = map_option (\<lambda>t. int (getDate env t)) d"

definition dateStringOf :: "date_env \<Rightarrow> date \<Rightarrow> string" where
  "dateStringOf env d = (case d of None \<Rightarrow> ''Invalid Date'' | Some t \<Rightarrow> toDateString env t)"

definition longDayLabelOf :: "date_env \<Rightarrow> date \<Rightarrow> string" where
  "longDayLabelOf env d = (case d of None \<Rightarrow> ''Invalid Date'' | Some t \<Rightarrow> longDayLabel env t)"

definition shortMonthLabelOf :: "date_env \<Rightarrow> date \<Rightarrow> string" where
  "shortMonthLabelOf env d = (case d of None \<Rightarrow> ''Invalid Date'' | Some t \<Rightarrow> shortMonthLabel env t)"

text \<open>
  Arithmetic and comparison of numbers that may be \<^verbatim>\<open>NaN\<close>: a sum or difference with
  \<^verbatim>\<open>NaN\<close> is \<^verbatim>\<open>NaN\<close>, and \<^verbatim>\<open>!==\<close> holds whenever a side is \<^verbatim>\<open>NaN\<close>.
\<close>

definition jsPlus :: "int option \<Rightarrow> int option \<Rightarrow> int option" where
  "jsPlus a b = (case (a, b) of (Some x, Some y) \<Rightarrow> Some (x + y) | _ \<Rightarrow> None)"

definition jsMinus :: "int option \<Rightarrow> int option \<Rightarrow> int option" where
  "jsMinus a b = (case (a, b) of (Some x, Some y) \<Rightarrow> Some (x - y) | _ \<Rightarrow> None)"

definition jsNotEq :: "int option \<Rightarrow> int option \<Rightarrow> bool" where
  "jsNotEq a b = (case (a, b) of (Some x, Some y) \<Rightarrow> x \<noteq> y | _ \<Rightarrow> True)"

record ImageMetadata =
  image_id :: string
  name :: string
  relative_path :: string
  url :: string
  size_bytes :: nat
  modified_at :: string

record TimelineGroup =
  key :: string
  date :: date
  label :: string
  dayLabel :: string
  monthLabel :: string
  yearLabel :: string
  images :: "ImageMetadata list"
  count :: nat
  isNewMonth :: bool
  isNewYear :: bool

text \<open>\<^verbatim>\<open>String(n)\<close> for an integer or \<^verbatim>\<open>NaN\<close>, and \<^verbatim>\<open>padStart(2, '0')\<close>.\<close>

fun stringOfNat :: "nat \<Rightarrow> string" where
  "stringOfNat n =
     (if n < 10 then [''0123456789'' ! n]
      else stringOfNat (n div 10) @ [''0123456789'' ! (n mod 10)])"

declare stringOfNat.simps [simp del]

definition stringOfInt :: "int \<Rightarrow> string" where
  "stringOfInt i = (if i < 0 then ''-'' @ stringOfNat (nat (- i)) else stringOfNat (nat i))"

definition stringOfNumber :: "int option \<Rightarrow> string" where
  "stringOfNumber v = (case v of None \<Rightarrow> ''NaN'' | Some i \<Rightarrow> stringOfInt i)"

definition padStart2 :: "string \<Rightarrow> string" where
  "padStart2 str = replicate (2 - length str) CHR ''0'' @ str"

definition dayKey :: "date_env \<Rightarrow> ImageMetadata \<Rightarrow> string" where
  "dayKey env img =
     (let d = parseDate env (modified_at img)
      in stringOfNumber (fullYearOf env d) @ ''-''
         @ padStart2 (stringOfNumber (jsPlus (monthOf env d) (Some 1))) @ ''-''
         @ padStart2 (stringOfNumber (dayOfMonthOf env d)))"

text \<open>
  The \<^verbatim>\<open>Map\<close> from day key to images, as an association list in insertion order: a new
  key goes to the end, an image to the end of its key's list.
\<close>

fun pushImage :: "string \<Rightarrow> ImageMetadata \<Rightarrow> (string \<times> ImageMetadata list) list
                  \<Rightarrow> (string \<times> ImageMetadata list) list" where
  "pushImage k img [] = [(k, [img])]"
| "pushImage k img ((k', imgs) # entries) =
     (if k' = k then (k', imgs @ [img]) # entries
      else (k', imgs) # pushImage k img entries)"

definition groupByDay :: "date_env \<Rightarrow> ImageMetadata list \<Rightarrow> (string \<times> ImageMetadata list) list" where
  "groupByDay env imgs = foldl (\<lambda>groups img. pushImage (dayKey env img) img groups) [] imgs"

definition makeGroup :: "date_env \<Rightarrow> string \<times> ImageMetadata list \<Rightarrow> TimelineGroup" where
  "makeGroup env entry =
     (let k = fst entry; imgs = snd entry;
          d = parseDate env k;
          now = nowDate env;
          yesterday = dayBefore env now;
          isToday = (dateStringOf env d = toDateString env now);
          isYesterday = (dateStringOf env d = toDateString env yesterday);
          dayLabelText = (if isToday then ''Today''
                          else if isYesterday then ''Yesterday''
                          else longDayLabelOf env d)
      in \<lparr> key = k, date = d, label = dayLabelText,
           dayLabel = stringOfNumber (dayOfMonthOf env d),
           monthLabel = shortMonthLabelOf env d,
           yearLabel = stringOfNumber (fullYearOf env d),
           images = imgs, count = length imgs,
           isNewMonth = False, isNewYear = False \<rparr>)"

text \<open>
  \<^verbatim>\<open>sort((a, b) => b.date.getTime() - a.date.getTime())\<close>. The comparison function gives
  \<^verbatim>\<open>NaN\<close> when one of the two dates is invalid, and \<^verbatim>\<open>Array.prototype.sort\<close> reads a
  \<^verbatim>\<open>NaN\<close> result as 0. The sort is stable. With valid dates the comparison function is
  consistent and the result is the one list that is sorted and stable. With an invalid
  date it is not consistent and the language leaves the order to the engine; the model
  takes a stable insertion sort, which moves a group in front of the groups before it for
  which the comparison is positive and stops at the first one for which it is not.
\<close>

definition compareGroups :: "TimelineGroup \<Rightarrow> TimelineGroup \<Rightarrow> int option" where
  "compareGroups a b = jsMinus (date b) (date a)"

definition sortCompare :: "TimelineGroup \<Rightarrow> TimelineGroup \<Rightarrow> int" where
  "sortCompare a b = (case compareGroups a b of None \<Rightarrow> 0 | Some v \<Rightarrow> v)"

text \<open>
  \<open>insertGroup x placed\<close> inserts \<open>x\<close> into the groups placed so far, held last group
  first.
\<close>

fun insertGroup :: "TimelineGroup \<Rightarrow> TimelineGroup list \<Rightarrow> TimelineGroup list" where
  "insertGroup x [] = [x]"
| "insertGroup x (y # placed) =
     (if sortCompare y x > 0 then y # insertGroup x placed else x # y # placed)"

definition sortGroups :: "TimelineGroup list \<Rightarrow> TimelineGroup list" where
  "sortGroups groups = rev (foldl (\<lambda>placed x. insertGroup x placed) [] groups)"

text \<open>
  The marking loop. \<open>previous\<close> is the group at index \<open>i - 1\<close> (\<open>None\<close> at index 0,
  where the source reads \<^verbatim>\<open>undefined\<close>); only its date is read. The year and the month
  compared are \<^verbatim>\<open>getFullYear()\<close> and \<^verbatim>\<open>getMonth()\<close> of the group's \<open>date\<close> field, the
  date parsed back from the day key.
\<close>

fun markGroups :: "date_env \<Rightarrow> TimelineGroup option \<Rightarrow> TimelineGroup list \<Rightarrow> TimelineGroup list" where
  "markGroups env previous [] = []"
| "markGroups env previous (current # rest) =
     (let marked =
        (case previous of
           None \<Rightarrow> current\<lparr> isNewYear := True, isNewMonth := True \<rparr>
         | Some p \<Rightarrow>
             if jsNotEq (fullYearOf env (date current)) (fullYearOf env (date p))
             then current\<lparr> isNewYear := True, isNewMonth := True \<rparr>
             else if jsNotEq (monthOf env (date current)) (monthOf env (date p))
             then current\<lparr> isNewMonth := True \<rparr>
             else current)
      in marked # markGroups env (Some marked) rest)"

definition timelineGroups :: "date_env \<Rightarrow> ImageMetadata list \<Rightarrow> TimelineGroup list" where
  "timelineGroups env imgs =
     markGroups env None (sortGroups (map (makeGroup env) (groupByDay env imgs)))"

text \<open>The entry of the day map a group was made from.\<close>

definition entryOf :: "TimelineGroup \<Rightarrow> string \<times> ImageMetadata list" where
  "entryOf g = (key g, images g)"

text \<open>
  Group \<open>a\<close> may stand before group \<open>b\<close> in a list sorted by date descending: both dates
  are valid and the date of \<open>a\<close> is not the earlier one.
\<close>

definition laterFirst :: "TimelineGroup \<Rightarrow> TimelineGroup \<Rightarrow> bool" where
  "laterFirst a b = (case (date a, date b) of (Some ta, Some tb) \<Rightarrow> tb \<le> ta | _ \<Rightarrow> False)"

text \<open>Every day key of the list parses to a valid date.\<close>

definition validDays :: "date_env \<Rightarrow> ImageMetadata list \<Rightarrow> bool" where
  "validDays env imgs = (\<forall>img \<in> set imgs. parseDate env (dayKey env img) \<noteq> None)"

text \<open>The flags the claim asks for at index \<open>i\<close> of a group list.\<close>

definition yearFlag :: "date_env \<Rightarrow> TimelineGroup list \<Rightarrow> nat \<Rightarrow> bool" where
  "yearFlag env groups i =
     (i = 0 \<or> jsNotEq (fullYearOf env (date (groups ! i))) (fullYearOf env (date (groups ! (i - 1)))))"

definition monthFlag :: "date_env \<Rightarrow> TimelineGroup list \<Rightarrow> nat \<Rightarrow> bool" where
  "monthFlag env groups i =
     ((0 < i \<and> jsNotEq (monthOf env (date (groups ! i))) (monthOf env (date (groups ! (i - 1)))))
      \<or> isNewYear (groups ! i))"

text \<open>
  The date the marking loop compares group \<open>i\<close> with: the date of the group before it,
  or of \<open>previous\<close> at index 0.
\<close>

definition dateBefore :: "TimelineGroup option \<Rightarrow> TimelineGroup list \<Rightarrow> nat \<Rightarrow> date option" where
  "dateBefore previous groups i =
     (if i = 0 then map_option date previous else Some (date (groups ! (i - 1))))"

text \<open>
  A small environment for concrete runs: the answers of an engine in UTC on 1 March 2025
  for the two days of the spec's scenario, 5 January and 10 February 2025 (time values in
  milliseconds since 1970). Every other string is no date.
\<close>

definition exampleEnv :: date_env where
  "exampleEnv =
     \<lparr> parseDate = (\<lambda>str.
         if str = ''2025-01-05T10:00:00Z'' then Some 1736071200000
         else if str = ''2025-02-10T08:30:00Z'' then Some 1739176200000
         else if str = ''2025-01-05'' then Some 1736035200000
         else if str = ''2025-02-10'' then Some 1739145600000
         else None),
       getFullYear = (\<lambda>t. if 1735689600000 \<le> t \<and> t < 1767225600000 then 2025 else 1970),
       getMonth = (\<lambda>t. if 1738368000000 \<le> t then 1 else 0),
       getDate = (\<lambda>t. if 1739145600000 \<le> t then 10 else 5),
       toDateString = (\<lambda>t.
         if t < 1738368000000 then ''Sun Jan 05 2025''
         else if t < 1739232000000 then ''Mon Feb 10 2025''
         else if t < 1740787200000 then ''Fri Feb 28 2025''
         else ''Sat Mar 01 2025''),
       dayBefore = (\<lambda>t. t - 86400000),
       longDayLabel = (\<lambda>t. if 1739145600000 \<le> t then ''Monday, February 10'' else ''Sunday, January 5''),
       shortMonthLabel = (\<lambda>t. if 1738368000000 \<le> t then ''Feb'' else ''Jan''),
       nowDate = 1740787200000 \<rparr>"

definition exampleImages :: "ImageMetadata list" where
  "exampleImages =
     [\<lparr> image_id = ''img_1'', name = ''a.jpg'', relative_path = ''a.jpg'', url = ''/media/a.jpg'',
        size_bytes = 10, modified_at = ''2025-01-05T10:00:00Z'' \<rparr>,
      \<lparr> image_id = ''img_2'', name = ''b.jpg'', relative_path = ''b.jpg'', url = ''/media/b.jpg'',
        size_bytes = 20, modified_at = ''2025-02-10T08:30:00Z'' \<rparr>]"

text \<open>The same two images with one between them whose \<^verbatim>\<open>modified_at\<close> is no date.\<close>

definition undatedImages :: "ImageMetadata list" where
  "undatedImages =
     [\<lparr> image_id = ''img_1'', name = ''a.jpg'', relative_path = ''a.jpg'', url = ''/media/a.jpg'',
        size_bytes = 10, modified_at = ''2025-01-05T10:00:00Z'' \<rparr>,
      \<lparr> image_id = ''img_3'', name = ''c.jpg'', relative_path = ''c.jpg'', url = ''/media/c.jpg'',
        size_bytes = 30, modified_at = ''not a date'' \<rparr>,
      \<lparr> image_id = ''img_2'', name = ''b.jpg'', relative_path = ''b.jpg'', url = ''/media/b.jpg'',
        size_bytes = 20, modified_at = ''2025-02-10T08:30:00Z'' \<rparr>]"


section \<open>Viewer state machine of the lightbox (components/Lightbox.tsx)\<close>

text \<open>
  The component keeps its viewer state in React state cells and one ref. An event handler
  is modelled as a function from the state before the event to the state after it, with
  the state updates applied in the order the handler issues them. Coordinates, zoom levels
  and pan offsets are JavaScript numbers; every constant of the viewer (0.25, 0.5, 1.5, 5)
  is a dyadic rational, and they are modelled as rationals. The container is the element
  behind \<^verbatim>\<open>viewerRef\<close>: \<open>None\<close> when the ref is empty, otherwise its
  \<^verbatim>\<open>clientWidth\<close> and \<^verbatim>\<open>clientHeight\<close>.
\<close>

datatype ViewerMode = Frame | Fill | Zoom

text \<open>\<^verbatim>\<open>Exclude<ViewerMode, 'zoom'>\<close>, the type of \<^verbatim>\<open>baseViewerMode\<close>.\<close>

datatype BaseMode = BaseFrame | BaseFill

fun modeOfBase :: "BaseMode \<Rightarrow> ViewerMode" where
  "modeOfBase BaseFrame = Frame"
| "modeOfBase BaseFill = Fill"

type_synonym point = "rat \<times> rat"
type_synonym container = "(nat \<times> nat) option"

record pan_start =
  pointerId :: int
  startX :: rat
  startY :: rat
  panX :: rat
  panY :: rat

text \<open>The four state cells both viewer implementations of the repository have.\<close>

record viewer_core =
  viewerMode :: ViewerMode
  zoomLevel :: rat
  panOffset :: point
  isPanning :: bool

record lightbox_state = viewer_core +
  baseViewerMode :: BaseMode
  panStartRef :: "pan_start option"
  lightboxNotice :: "string option"

definition MIN_ZOOM :: rat where "MIN_ZOOM = 1 / 2"
definition MAX_ZOOM :: rat where "MAX_ZOOM = 5"
definition ZOOM_STEP :: rat where "ZOOM_STEP = 1 / 4"

definition VIEWER_MODE_OPTIONS :: "ViewerMode list" where
  "VIEWER_MODE_OPTIONS = [Frame, Fill, Zoom]"

fun VIEWER_MODE_MESSAGES :: "ViewerMode \<Rightarrow> string" where
  "VIEWER_MODE_MESSAGES Frame = ''Fit to frame''"
| "VIEWER_MODE_MESSAGES Fill = ''Fill view''"
| "VIEWER_MODE_MESSAGES Zoom = ''Zoom & pan''"

definition initialLightbox :: lightbox_state where
  "initialLightbox =
     \<lparr> viewerMode = Frame, zoomLevel = 1, panOffset = (0, 0), isPanning = False,
       baseViewerMode = BaseFrame, panStartRef = None, lightboxNotice = None \<rparr>"

definition resetZoomState :: "lightbox_state \<Rightarrow> lightbox_state" where
  "resetZoomState s =
     s\<lparr> viewerMode := Frame, zoomLevel := 1, panOffset := (0, 0), isPanning := False,
        panStartRef := None \<rparr>"

definition clampPanOffset :: "container \<Rightarrow> point \<Rightarrow> rat \<Rightarrow> point" where
  "clampPanOffset viewer offset zoom =
     (case viewer of
        None \<Rightarrow> (0, 0)
      | Some (clientWidth, clientHeight) \<Rightarrow>
          if zoom \<le> 1 then (0, 0)
          else
            let maxX = ((zoom - 1) * of_nat clientWidth) / 2;
                maxY = ((zoom - 1) * of_nat clientHeight) / 2
            in (max (- maxX) (min maxX (fst offset)), max (- maxY) (min maxY (snd offset))))"

text \<open>
  \<^verbatim>\<open>flashLightboxNotice\<close> shows the message; the timer that removes it two seconds
  later is a later event and does not touch the viewer cells.
\<close>

definition flashLightboxNotice :: "string \<Rightarrow> lightbox_state \<Rightarrow> lightbox_state" where
  "flashLightboxNotice message s = s\<lparr> lightboxNotice := Some message \<rparr>"

definition handleViewerModeChange :: "ViewerMode \<Rightarrow> bool \<Rightarrow> lightbox_state \<Rightarrow> lightbox_state" where
  "handleViewerModeChange mode announce s =
     (let current = viewerMode s in
      if current = mode then s
      else
        let s1 = (case mode of
                    Frame \<Rightarrow> s\<lparr> baseViewerMode := BaseFrame, zoomLevel := 1, panOffset := (0, 0),
                                isPanning := False, panStartRef := None \<rparr>
                  | Fill \<Rightarrow> s\<lparr> baseViewerMode := BaseFill, zoomLevel := 1, panOffset := (0, 0),
                               isPanning := False, panStartRef := None \<rparr>
                  | Zoom \<Rightarrow> s\<lparr> zoomLevel := 3 / 2, panOffset := (0, 0), panStartRef := None \<rparr>);
            s2 = (if announce then flashLightboxNotice (VIEWER_MODE_MESSAGES mode) s1 else s1)
        in s2\<lparr> viewerMode := mode \<rparr>)"

text \<open>\<^verbatim>\<open>Array.prototype.findIndex\<close>: the first index whose element passes, or -1.\<close>

fun findIndex :: "('a \<Rightarrow> bool) \<Rightarrow> 'a list \<Rightarrow> int" where
  "findIndex P [] = - 1"
| "findIndex P (x # xs) =
     (if P x then 0 else (let i = findIndex P xs in if i < 0 then - 1 else i + 1))"

definition cycleViewerMode :: "lightbox_state \<Rightarrow> lightbox_state" where
  "cycleViewerMode s =
     (let currentIndex = findIndex (\<lambda>option. option = viewerMode s) VIEWER_MODE_OPTIONS;
          nextOption = VIEWER_MODE_OPTIONS ! nat ((currentIndex + 1) mod int (length VIEWER_MODE_OPTIONS))
      in handleViewerModeChange nextOption True s)"

definition toggleZoomShortcut :: "lightbox_state \<Rightarrow> lightbox_state" where
  "toggleZoomShortcut s =
     (if viewerMode s = Zoom then handleViewerModeChange (modeOfBase (baseViewerMode s)) True s
      else handleViewerModeChange Zoom True s)"

definition handleViewerWheel :: "container \<Rightarrow> rat \<Rightarrow> lightbox_state \<Rightarrow> lightbox_state" where
  "handleViewerWheel viewer deltaY s =
     (let s1 = (if viewerMode s \<noteq> Zoom then handleViewerModeChange Zoom False s else s);
          direction = (if deltaY < 0 then 1 else - 1);
          next = max MIN_ZOOM (min MAX_ZOOM (zoomLevel s1 + direction * ZOOM_STEP))
      in s1\<lparr> panOffset := clampPanOffset viewer (panOffset s1) next, zoomLevel := next \<rparr>)"

definition handleViewerPointerDown :: "int \<Rightarrow> rat \<Rightarrow> rat \<Rightarrow> lightbox_state \<Rightarrow> lightbox_state" where
  "handleViewerPointerDown pid clientX clientY s =
     (if viewerMode s \<noteq> Zoom then s
      else s\<lparr> panStartRef := Some \<lparr> pointerId = pid, startX = clientX, startY = clientY,
                                   panX = fst (panOffset s), panY = snd (panOffset s) \<rparr>,
              isPanning := True \<rparr>)"

definition handleViewerPointerMove ::
  "container \<Rightarrow> int \<Rightarrow> rat \<Rightarrow> rat \<Rightarrow> lightbox_state \<Rightarrow> lightbox_state" where
  "handleViewerPointerMove viewer pid clientX clientY s =
     (if viewerMode s \<noteq> Zoom then s
      else case panStartRef s of
        None \<Rightarrow> s
      | Some start \<Rightarrow>
          if pointerId start \<noteq> pid then s
          else
            let deltaX = clientX - startX start;
                deltaY = clientY - startY start
            in s\<lparr> panOffset :=
                    clampPanOffset viewer (panX start + deltaX, panY start + deltaY) (zoomLevel s) \<rparr>)"

definition handleViewerPointerUpOrCancel :: "int \<Rightarrow> lightbox_state \<Rightarrow> lightbox_state" where
  "handleViewerPointerUpOrCancel pid s =
     (case panStartRef s of
        None \<Rightarrow> s
      | Some start \<Rightarrow>
          if pointerId start \<noteq> pid then s
          else s\<lparr> panStartRef := None, isPanning := False \<rparr>)"

datatype viewer_event =
    Wheel rat
  | PointerDown int rat rat
  | PointerMove int rat rat
  | PointerUp int
  | Cycle
  | ToggleZoom

fun lightboxStep :: "container \<Rightarrow> lightbox_state \<Rightarrow> viewer_event \<Rightarrow> lightbox_state" where
  "lightboxStep viewer s (Wheel deltaY) = handleViewerWheel viewer deltaY s"
| "lightboxStep viewer s (PointerDown pid cx cy) = handleViewerPointerDown pid cx cy s"
| "lightboxStep viewer s (PointerMove pid cx cy) = handleViewerPointerMove viewer pid cx cy s"
| "lightboxStep viewer s (PointerUp pid) = handleViewerPointerUpOrCancel pid s"
| "lightboxStep viewer s Cycle = cycleViewerMode s"
| "lightboxStep viewer s ToggleZoom = toggleZoomShortcut s"

definition lightboxRun :: "container \<Rightarrow> viewer_event list \<Rightarrow> lightbox_state" where
  "lightboxRun viewer events = foldl (lightboxStep viewer) initialLightbox events"

text \<open>The largest pan the claim allows on the two axes at a zoom level above 1.\<close>

definition panBound :: "container \<Rightarrow> rat \<Rightarrow> point" where
  "panBound viewer zoom =
     (case viewer of
        None \<Rightarrow> (0, 0)
      | Some (clientWidth, clientHeight) \<Rightarrow>
          ((zoom - 1) * of_nat clientWidth / 2, (zoom - 1) * of_nat clientHeight / 2))"


text \<open>
  The pan invariant of the claim: the pan offset is the origin whenever the zoom level is
  at most 1 or the mode is not zoom, and above zoom level 1 both axes stay within the
  bound.
\<close>

definition panInv :: "container \<Rightarrow> lightbox_state \<Rightarrow> bool" where
  "panInv viewer s =
     ((zoomLevel s \<le> 1 \<or> viewerMode s \<noteq> Zoom \<longrightarrow> panOffset s = (0, 0))
      \<and> (1 < zoomLevel s \<longrightarrow>
           \<bar>fst (panOffset s)\<bar> \<le> fst (panBound viewer (zoomLevel s))
           \<and> \<bar>snd (panOffset s)\<bar> \<le> snd (panBound viewer (zoomLevel s))))"

text \<open>
  The last non-zoom mode of a run, in the spec's words: the mode of the latest state the
  run went through (the initial state included) whose mode is not zoom. The initial mode
  is frame, so there always is one.
\<close>

definition modeHistory :: "container \<Rightarrow> viewer_event list \<Rightarrow> ViewerMode list" where
  "modeHistory viewer events =
     map (\<lambda>k. viewerMode (lightboxRun viewer (take k events))) [0..<Suc (length events)]"

definition lastNonZoomMode :: "container \<Rightarrow> viewer_event list \<Rightarrow> ViewerMode" where
  "lastNonZoomMode viewer events = last (filter (\<lambda>m. m \<noteq> Zoom) (modeHistory viewer events))"


text \<open>
  Outside zoom mode the base mode is the current mode: the link between
  \<^verbatim>\<open>baseViewerMode\<close> and the mode history.
\<close>

definition baseInv :: "lightbox_state \<Rightarrow> bool" where
  "baseInv s = (viewerMode s = Zoom \<or> modeOfBase (baseViewerMode s) = viewerMode s)"


section \<open>The viewer hook (hooks/useImageViewer.ts)\<close>

text \<open>
  A second viewer implementation. \<^verbatim>\<open>App.tsx\<close> calls the hook but attaches none of its
  event handlers; it only calls its \<^verbatim>\<open>resetZoomState\<close>. The hook has no base mode
  and clamps the pan to a fixed 200 pixels.
\<close>

record hook_state = viewer_core +
  pointerStartRef :: point
  hookPanStartRef :: point

definition initialHook :: hook_state where
  "initialHook =
     \<lparr> viewerMode = Frame, zoomLevel = 1, panOffset = (0, 0), isPanning = False,
       pointerStartRef = (0, 0), hookPanStartRef = (0, 0) \<rparr>"

definition hookResetZoomState :: "hook_state \<Rightarrow> hook_state" where
  "hookResetZoomState s =
     s\<lparr> viewerMode := Frame, zoomLevel := 1, panOffset := (0, 0), isPanning := False,
        pointerStartRef := (0, 0), hookPanStartRef := (0, 0) \<rparr>"

text \<open>\<^verbatim>\<open>Array.prototype.indexOf\<close>: the first index of the element, or -1.\<close>

definition indexOf :: "'a list \<Rightarrow> 'a \<Rightarrow> int" where
  "indexOf xs x = findIndex (\<lambda>y. y = x) xs"

definition hookCycleViewerMode :: "hook_state \<Rightarrow> hook_state" where
  "hookCycleViewerMode s =
     (let modes = [Frame, Fill, Zoom];
          currentIndex = indexOf modes (viewerMode s);
          next = modes ! nat ((currentIndex + 1) mod int (length modes))
      in s\<lparr> viewerMode := next, zoomLevel := 1, panOffset := (0, 0) \<rparr>)"

definition hookClampPanOffset :: "point \<Rightarrow> point" where
  "hookClampPanOffset offset =
     (let maxPan = 200
      in (max (- maxPan) (min maxPan (fst offset)), max (- maxPan) (min maxPan (snd offset))))"

definition handleWheel :: "rat \<Rightarrow> hook_state \<Rightarrow> hook_state" where
  "handleWheel deltaY s =
     (if viewerMode s \<noteq> Zoom then s
      else
        let delta = (if deltaY > 0 then - ZOOM_STEP else ZOOM_STEP)
        in s\<lparr> zoomLevel := max MIN_ZOOM (min MAX_ZOOM (zoomLevel s + delta)) \<rparr>)"

definition handlePointerDown :: "rat \<Rightarrow> rat \<Rightarrow> hook_state \<Rightarrow> hook_state" where
  "handlePointerDown clientX clientY s =
     (if viewerMode s \<noteq> Zoom then s
      else s\<lparr> isPanning := True, pointerStartRef := (clientX, clientY),
              hookPanStartRef := panOffset s \<rparr>)"

definition handlePointerMove :: "rat \<Rightarrow> rat \<Rightarrow> hook_state \<Rightarrow> hook_state" where
  "handlePointerMove clientX clientY s =
     (if \<not> isPanning s \<or> viewerMode s \<noteq> Zoom then s
      else
        let dx = clientX - fst (pointerStartRef s);
            dy = clientY - snd (pointerStartRef s);
            newOffset = (fst (hookPanStartRef s) + dx, snd (hookPanStartRef s) + dy)
        in s\<lparr> panOffset := hookClampPanOffset newOffset \<rparr>)"

definition handlePointerUp :: "hook_state \<Rightarrow> hook_state" where
  "handlePointerUp s = s\<lparr> isPanning := False \<rparr>"

definition handleDoubleClick :: "hook_state \<Rightarrow> hook_state" where
  "handleDoubleClick s =
     (if viewerMode s = Zoom then hookResetZoomState s
      else s\<lparr> viewerMode := Zoom, zoomLevel := 3 / 2 \<rparr>)"

text \<open>The hook's handlers take no pointer id; the id of an event is ignored.\<close>

fun hookStep :: "hook_state \<Rightarrow> viewer_event \<Rightarrow> hook_state" where
  "hookStep s (Wheel deltaY) = handleWheel deltaY s"
| "hookStep s (PointerDown pid cx cy) = handlePointerDown cx cy s"
| "hookStep s (PointerMove pid cx cy) = handlePointerMove cx cy s"
| "hookStep s (PointerUp pid) = handlePointerUp s"
| "hookStep s Cycle = hookCycleViewerMode s"
| "hookStep s ToggleZoom = handleDoubleClick s"

definition hookRun :: "viewer_event list \<Rightarrow> hook_state" where
  "hookRun events = foldl hookStep initialHook events"


text \<open>What the hook keeps of the pan invariant: the origin outside zoom mode, 200 pixels inside.\<close>

definition hookPanInv :: "hook_state \<Rightarrow> bool" where
  "hookPanInv s =
     ((viewerMode s \<noteq> Zoom \<longrightarrow> panOffset s = (0, 0))
      \<and> \<bar>fst (panOffset s)\<bar> \<le> 200 \<and> \<bar>snd (panOffset s)\<bar> \<le> 200)"


section \<open>Theorems\<close>

subsection \<open>Favorites\<close>

lemma toggleFavorite_member: "x \<in> S \<Longrightarrow> toggleFavorite S x = S - {x}"
  by (simp add: toggleFavorite_def)

lemma toggleFavorite_absent: "x \<notin> S \<Longrightarrow> toggleFavorite S x = insert x S"
  by (simp add: toggleFavorite_def)

text \<open>
  C6. Toggling a favourite twice on the same id gives back the original set, and one
  toggle removes the id when it is a member and adds it otherwise.
\<close>

theorem toggleFavorite_involution:
  "toggleFavorite (toggleFavorite S x) x = S
   \<and> toggleFavorite S x = (if x \<in> S then S - {x} else insert x S)"
  by (auto simp: toggleFavorite_def)

subsection \<open>View routing\<close>

text \<open>
  C8. The grid is shown exactly for the keys all, favorites and timeline, the faces
  panel exactly for the key faces, and a key outside the five known ones gets the title
  and subtitle of the default branch; the lookup is a total function, so no key makes it
  fail.
\<close>

theorem useViewRouting_flags:
  "showGrid (useViewRouting k) = (k \<in> {''all'', ''favorites'', ''timeline''})
   \<and> showFaces (useViewRouting k) = (k = ''faces'')
   \<and> (k \<notin> knownViews \<longrightarrow>
        viewTitle (useViewRouting k) = defaultTitle
        \<and> viewSubtitle (useViewRouting k) = defaultSubtitle)"
  by (auto simp: useViewRouting_def viewTitleOf_def viewSubtitleOf_def knownViews_def
      defaultTitle_def defaultSubtitle_def Let_def)

theorem useViewRouting_flags_witness:
  "''albums'' \<notin> knownViews
   \<and> viewTitle (useViewRouting ''albums'') = ''All Photos''
   \<and> viewSubtitle (useViewRouting ''albums'') =
       ''Feature coming soon. Keep browsing in All Photos while we finish this workspace.''
   \<and> \<not> showGrid (useViewRouting ''albums'') \<and> \<not> showFaces (useViewRouting ''albums'')"
proof -
  have h: "''albums'' \<notin> knownViews" by (simp add: knownViews_def)
  from useViewRouting_flags [of "''albums''"] h show ?thesis
    by (simp add: defaultTitle_def defaultSubtitle_def)
qed

subsection \<open>Viewer: the pan invariant\<close>

lemma panBound_nonneg:
  "1 \<le> zoom \<Longrightarrow> 0 \<le> fst (panBound viewer zoom) \<and> 0 \<le> snd (panBound viewer zoom)"
  by (auto simp: panBound_def split: option.splits)

lemma clamp_abs: "0 \<le> m \<Longrightarrow> \<bar>max (- m) (min m (v::rat))\<bar> \<le> m"
  by (simp add: abs_le_iff max_def min_def)

lemma clampPanOffset_low: "zoom \<le> 1 \<Longrightarrow> clampPanOffset viewer offset zoom = (0, 0)"
  by (simp add: clampPanOffset_def split: option.splits)

lemma clampPanOffset_bounded:
  assumes "1 < zoom"
  shows "\<bar>fst (clampPanOffset viewer offset zoom)\<bar> \<le> fst (panBound viewer zoom)"
    and "\<bar>snd (clampPanOffset viewer offset zoom)\<bar> \<le> snd (panBound viewer zoom)"
proof -
  have nn: "0 \<le> (zoom - 1) * of_nat n / 2" for n :: nat
    using assms by simp
  show "\<bar>fst (clampPanOffset viewer offset zoom)\<bar> \<le> fst (panBound viewer zoom)"
    using assms clamp_abs [OF nn]
    by (simp add: clampPanOffset_def panBound_def Let_def split: option.splits prod.splits)
  show "\<bar>snd (clampPanOffset viewer offset zoom)\<bar> \<le> snd (panBound viewer zoom)"
    using assms clamp_abs [OF nn]
    by (simp add: clampPanOffset_def panBound_def Let_def split: option.splits prod.splits)
qed

lemma panInv_cong:
  "viewerMode t = viewerMode s \<Longrightarrow> zoomLevel t = zoomLevel s \<Longrightarrow> panOffset t = panOffset s
   \<Longrightarrow> panInv viewer t = panInv viewer s"
  by (simp add: panInv_def)

lemma panInv_clamp:
  "viewerMode s = Zoom \<Longrightarrow>
   panInv viewer (s\<lparr> panOffset := clampPanOffset viewer offset z, zoomLevel := z \<rparr>)"
  using clampPanOffset_low [of z viewer offset] clampPanOffset_bounded [of z viewer offset]
  by (auto simp: panInv_def)

lemma panInv_modeChange:
  "panInv viewer s \<Longrightarrow> panInv viewer (handleViewerModeChange mode announce s)"
  using panBound_nonneg [of "3/2" viewer]
  by (cases mode) (auto simp: panInv_def handleViewerModeChange_def flashLightboxNotice_def Let_def)

lemma viewerMode_modeChange [simp]:
  "viewerMode (handleViewerModeChange mode announce s) = mode"
  by (cases mode) (auto simp: handleViewerModeChange_def flashLightboxNotice_def Let_def)

lemma cycle_next:
  "cycleViewerMode s = handleViewerModeChange
     (case viewerMode s of Frame \<Rightarrow> Fill | Fill \<Rightarrow> Zoom | Zoom \<Rightarrow> Frame) True s"
  by (cases "viewerMode s") (simp_all add: cycleViewerMode_def VIEWER_MODE_OPTIONS_def Let_def)

lemma panInv_step: "panInv viewer s \<Longrightarrow> panInv viewer (lightboxStep viewer s e)"
proof (cases e)
  case (Wheel deltaY)
  assume inv: "panInv viewer s"
  define s1 where "s1 = (if viewerMode s \<noteq> Zoom then handleViewerModeChange Zoom False s else s)"
  have "viewerMode s1 = Zoom" by (simp add: s1_def)
  then show ?thesis
    unfolding Wheel lightboxStep.simps handleViewerWheel_def Let_def s1_def [symmetric]
    by (rule panInv_clamp)
next
  case (PointerDown pid cx cy)
  assume "panInv viewer s"
  moreover have "panInv viewer (handleViewerPointerDown pid cx cy s) = panInv viewer s"
    by (rule panInv_cong) (simp_all add: handleViewerPointerDown_def)
  ultimately show ?thesis by (simp add: PointerDown)
next
  case (PointerMove pid cx cy)
  assume inv: "panInv viewer s"
  show ?thesis
  proof (cases "viewerMode s = Zoom \<and> (\<exists>st. panStartRef s = Some st \<and> pointerId st = pid)")
    case True
    then obtain st where st: "panStartRef s = Some st" "pointerId st = pid" and z: "viewerMode s = Zoom"
      by blast
    have "panInv viewer (s\<lparr> panOffset := clampPanOffset viewer
            (panX st + (cx - startX st), panY st + (cy - startY st)) (zoomLevel s),
            zoomLevel := zoomLevel s \<rparr>)"
      using z by (rule panInv_clamp)
    then show ?thesis
      by (simp add: PointerMove handleViewerPointerMove_def st z Let_def)
  next
    case False
    then have "handleViewerPointerMove viewer pid cx cy s = s"
      by (auto simp: handleViewerPointerMove_def split: option.splits)
    with inv show ?thesis by (simp add: PointerMove)
  qed
next
  case (PointerUp pid)
  assume "panInv viewer s"
  moreover have "panInv viewer (handleViewerPointerUpOrCancel pid s) = panInv viewer s"
    by (rule panInv_cong) (simp_all add: handleViewerPointerUpOrCancel_def split: option.splits)
  ultimately show ?thesis by (simp add: PointerUp)
next
  case Cycle
  assume "panInv viewer s"
  then show ?thesis by (simp add: Cycle cycle_next panInv_modeChange)
next
  case ToggleZoom
  assume "panInv viewer s"
  then show ?thesis by (simp add: ToggleZoom toggleZoomShortcut_def panInv_modeChange)
qed

lemma panInv_run: "panInv viewer (lightboxRun viewer events)"
proof (induction events rule: rev_induct)
  case Nil
  show ?case by (simp add: lightboxRun_def initialLightbox_def panInv_def)
next
  case (snoc e events)
  then show ?case
    unfolding lightboxRun_def by (simp add: panInv_step)
qed


lemmas lightbox_defs = lightboxRun_def initialLightbox_def handleViewerWheel_def
  handleViewerModeChange_def handleViewerPointerDown_def handleViewerPointerMove_def
  handleViewerPointerUpOrCancel_def clampPanOffset_def toggleZoomShortcut_def cycleViewerMode_def
  VIEWER_MODE_OPTIONS_def flashLightboxNotice_def MIN_ZOOM_def MAX_ZOOM_def ZOOM_STEP_def Let_def

lemmas hook_defs = hookRun_def initialHook_def hookCycleViewerMode_def indexOf_def handlePointerDown_def
  handlePointerMove_def hookClampPanOffset_def handleDoubleClick_def hookResetZoomState_def handleWheel_def
  handlePointerUp_def MIN_ZOOM_def MAX_ZOOM_def ZOOM_STEP_def Let_def

lemma hook_cycle_next:
  "hookCycleViewerMode s =
     s\<lparr> viewerMode := (case viewerMode s of Frame \<Rightarrow> Fill | Fill \<Rightarrow> Zoom | Zoom \<Rightarrow> Frame),
        zoomLevel := 1, panOffset := (0, 0) \<rparr>"
  by (cases "viewerMode s") (simp_all add: hookCycleViewerMode_def indexOf_def Let_def)

lemma hookClamp_abs:
  "\<bar>fst (hookClampPanOffset offset)\<bar> \<le> 200 \<and> \<bar>snd (hookClampPanOffset offset)\<bar> \<le> 200"
  using clamp_abs [of 200] by (simp add: hookClampPanOffset_def Let_def)

lemma hookPanInv_step: "hookPanInv s \<Longrightarrow> hookPanInv (hookStep s e)"
proof (cases e)
  case (PointerMove pid cx cy)
  assume "hookPanInv s"
  then show ?thesis
    using hookClamp_abs
    by (auto simp: PointerMove handlePointerMove_def hookPanInv_def Let_def)
qed (auto simp: hookPanInv_def hook_cycle_next handleWheel_def handlePointerDown_def
       handlePointerUp_def handleDoubleClick_def hookResetZoomState_def Let_def)

lemma hookPanInv_run: "hookPanInv (hookRun events)"
proof (induction events rule: rev_induct)
  case Nil
  show ?case by (simp add: hookRun_def initialHook_def hookPanInv_def)
next
  case (snoc e events)
  then show ?case unfolding hookRun_def by (simp add: hookPanInv_step)
qed

text \<open>
  C4, as stated, fails on the viewer hook: two cycles put the hook in zoom mode at zoom
  level 1, and a drag then moves the pan off the origin, since the hook clamps to a fixed
  200 pixels whatever the zoom level.
\<close>

theorem hook_pan_counterexample:
  "viewerMode (hookRun [Cycle, Cycle, PointerDown 1 0 0, PointerMove 1 50 60]) = Zoom
   \<and> zoomLevel (hookRun [Cycle, Cycle, PointerDown 1 0 0, PointerMove 1 50 60]) \<le> 1
   \<and> panOffset (hookRun [Cycle, Cycle, PointerDown 1 0 0, PointerMove 1 50 60]) = (50, 60)
   \<and> panOffset (hookRun [Cycle, Cycle, PointerDown 1 0 0, PointerMove 1 50 60]) \<noteq> (0, 0)"
  by (simp add: hook_defs)

text \<open>
  C4, amended. In the lightbox component, after any sequence of wheel, pointer-down,
  pointer-move, pointer-up, cycle and toggle-zoom events (with the container unchanged
  during the sequence), the pan offset is (0,0) whenever the zoom level is at most 1 or the
  mode is not zoom, and above zoom level 1 both pan axes lie within
  (zoom - 1) * (container dimension) / 2 of the origin. In the viewer hook, after any such
  sequence, the pan offset is (0,0) outside zoom mode and both axes lie within 200 of the
  origin.
\<close>

theorem pan_invariant:
  "panInv viewer (lightboxRun viewer events) \<and> hookPanInv (hookRun hookEvents)"
  by (simp add: panInv_run hookPanInv_run)

theorem pan_invariant_witness:
  "1 < zoomLevel (lightboxRun (Some (800, 600)) [Wheel (- 1), PointerDown 1 0 0, PointerMove 1 500 500])
   \<and> panOffset (lightboxRun (Some (800, 600)) [Wheel (- 1), PointerDown 1 0 0, PointerMove 1 500 500])
       = (300, 225)
   \<and> panBound (Some (800, 600))
        (zoomLevel (lightboxRun (Some (800, 600)) [Wheel (- 1), PointerDown 1 0 0, PointerMove 1 500 500]))
       = (300, 225)
   \<and> panInv (Some (800, 600))
        (lightboxRun (Some (800, 600)) [Wheel (- 1), PointerDown 1 0 0, PointerMove 1 500 500])
   \<and> viewerMode (hookRun [Cycle]) \<noteq> Zoom
   \<and> hookPanInv (hookRun [Cycle])"
proof -
  have "1 < zoomLevel (lightboxRun (Some (800, 600)) [Wheel (- 1), PointerDown 1 0 0, PointerMove 1 500 500])"
    by (simp add: lightbox_defs)
  moreover have "panOffset (lightboxRun (Some (800, 600)) [Wheel (- 1), PointerDown 1 0 0, PointerMove 1 500 500])
      = (300, 225)"
    by (simp add: lightbox_defs)
  moreover have "panBound (Some (800, 600))
        (zoomLevel (lightboxRun (Some (800, 600)) [Wheel (- 1), PointerDown 1 0 0, PointerMove 1 500 500]))
      = (300, 225)"
    by (simp add: lightbox_defs panBound_def)
  moreover have "viewerMode (hookRun [Cycle]) \<noteq> Zoom"
    by (simp add: hook_defs)
  moreover note pan_invariant [of "Some (800, 600)"
      "[Wheel (- 1), PointerDown 1 0 0, PointerMove 1 500 500]" "[Cycle]"]
  ultimately show ?thesis by blast
qed

subsection \<open>Viewer: the base mode and the mode history\<close>

lemma baseInv_modeChange: "baseInv s \<Longrightarrow> baseInv (handleViewerModeChange mode announce s)"
  by (cases mode) (auto simp: baseInv_def handleViewerModeChange_def flashLightboxNotice_def Let_def)

lemma base_modeChange_Zoom:
  "baseViewerMode (handleViewerModeChange Zoom announce s) = baseViewerMode s"
  by (auto simp: handleViewerModeChange_def flashLightboxNotice_def Let_def)

lemma baseInv_step: "baseInv s \<Longrightarrow> baseInv (lightboxStep viewer s e)"
  by (cases e; cases "viewerMode s"; cases "baseViewerMode s")
     (auto simp: cycle_next toggleZoomShortcut_def handleViewerWheel_def Let_def
        handleViewerModeChange_def flashLightboxNotice_def
        handleViewerPointerDown_def handleViewerPointerMove_def handleViewerPointerUpOrCancel_def
        baseInv_def split: option.splits)

lemma base_step_Zoom:
  "baseInv s \<Longrightarrow> viewerMode (lightboxStep viewer s e) = Zoom \<Longrightarrow>
   baseViewerMode (lightboxStep viewer s e) = baseViewerMode s"
  by (cases e; cases "viewerMode s"; cases "baseViewerMode s")
     (auto simp: cycle_next toggleZoomShortcut_def handleViewerWheel_def Let_def
        handleViewerModeChange_def flashLightboxNotice_def
        handleViewerPointerDown_def handleViewerPointerMove_def handleViewerPointerUpOrCancel_def
        baseInv_def split: option.splits)

lemma baseInv_run: "baseInv (lightboxRun viewer events)"
proof (induction events rule: rev_induct)
  case Nil
  show ?case by (simp add: lightboxRun_def initialLightbox_def baseInv_def)
next
  case (snoc e events)
  then show ?case unfolding lightboxRun_def by (simp add: baseInv_step)
qed

lemma lightboxRun_snoc:
  "lightboxRun viewer (events @ [e]) = lightboxStep viewer (lightboxRun viewer events) e"
  by (simp add: lightboxRun_def)

lemma modeHistory_snoc:
  "modeHistory viewer (events @ [e]) =
     modeHistory viewer events @ [viewerMode (lightboxRun viewer (events @ [e]))]"
  by (simp add: modeHistory_def)

lemma modeHistory_nonzoom: "filter (\<lambda>m. m \<noteq> Zoom) (modeHistory viewer events) \<noteq> []"
proof -
  have "viewerMode (lightboxRun viewer (take 0 events)) \<in> set (modeHistory viewer events)"
    unfolding modeHistory_def by (simp only: set_map) (rule imageI, simp)
  moreover have "viewerMode (lightboxRun viewer (take 0 events)) \<noteq> Zoom"
    by (simp add: lightboxRun_def initialLightbox_def)
  ultimately show ?thesis
    by (auto simp: filter_empty_conv)
qed

lemma lastNonZoomMode_snoc:
  "lastNonZoomMode viewer (events @ [e]) =
     (if viewerMode (lightboxRun viewer (events @ [e])) \<noteq> Zoom
      then viewerMode (lightboxRun viewer (events @ [e]))
      else lastNonZoomMode viewer events)"
  by (simp add: lastNonZoomMode_def modeHistory_snoc modeHistory_nonzoom)

lemma base_is_lastNonZoom:
  "modeOfBase (baseViewerMode (lightboxRun viewer events)) = lastNonZoomMode viewer events"
proof (induction events rule: rev_induct)
  case Nil
  show ?case
    by (simp add: lastNonZoomMode_def modeHistory_def lightboxRun_def initialLightbox_def)
next
  case (snoc e events)
  show ?case
  proof (cases "viewerMode (lightboxRun viewer (events @ [e])) = Zoom")
    case True
    then have "baseViewerMode (lightboxRun viewer (events @ [e])) = baseViewerMode (lightboxRun viewer events)"
      using base_step_Zoom [OF baseInv_run [of viewer events], of viewer e]
      by (simp add: lightboxRun_snoc)
    with True snoc show ?thesis by (simp add: lastNonZoomMode_snoc)
  next
    case False
    with baseInv_run [of viewer "events @ [e]"] show ?thesis
      by (simp add: lastNonZoomMode_snoc baseInv_def)
  qed
qed

text \<open>
  A change of the displayed image runs \<^verbatim>\<open>resetZoomState\<close>: it keeps the pan invariant
  and leaves \<^verbatim>\<open>baseViewerMode\<close> as it was.
\<close>

lemma resetZoomState_panInv: "panInv viewer (resetZoomState s)"
  by (simp add: resetZoomState_def panInv_def)

lemma resetZoomState_base: "baseViewerMode (resetZoomState s) = baseViewerMode s"
  by (simp add: resetZoomState_def)

text \<open>
  C5, as stated, fails on the viewer hook: from fill, a double click enters zoom and a
  second double click lands in frame, not in fill, the last mode that was not zoom.
\<close>

theorem hook_toggle_counterexample:
  "viewerMode (hookRun [Cycle]) = Fill
   \<and> viewerMode (hookRun [Cycle, ToggleZoom]) = Zoom
   \<and> viewerMode (hookRun [Cycle, ToggleZoom, ToggleZoom]) = Frame"
  by (simp add: hook_defs)

text \<open>
  C5, amended. In the lightbox component, after any sequence of wheel, pointer, cycle and
  toggle-zoom events, toggle-zoom in zoom mode returns to the last non-zoom mode of the
  sequence (which is what \<^verbatim>\<open>baseViewerMode\<close> holds) with zoom level 1, and in any
  other mode it enters zoom with the zoom level reset to 1.5; the pan offset is (0,0)
  afterwards. In the viewer hook, a double click in zoom mode always resets to frame with
  zoom level 1, and in any other mode enters zoom with zoom level 1.5.
\<close>

theorem toggleZoom_returns_to_base:
  "viewerMode (lightboxRun viewer (events @ [ToggleZoom])) =
     (if viewerMode (lightboxRun viewer events) = Zoom then lastNonZoomMode viewer events else Zoom)
   \<and> lastNonZoomMode viewer events = modeOfBase (baseViewerMode (lightboxRun viewer events))
   \<and> zoomLevel (lightboxRun viewer (events @ [ToggleZoom])) =
     (if viewerMode (lightboxRun viewer events) = Zoom then 1 else 3 / 2)
   \<and> panOffset (lightboxRun viewer (events @ [ToggleZoom])) = (0, 0)
   \<and> viewerMode (handleDoubleClick h) = (if viewerMode h = Zoom then Frame else Zoom)
   \<and> zoomLevel (handleDoubleClick h) = (if viewerMode h = Zoom then 1 else 3 / 2)"
proof -
  let ?s = "lightboxRun viewer events"
  have m: "viewerMode (toggleZoomShortcut ?s) =
      (if viewerMode ?s = Zoom then modeOfBase (baseViewerMode ?s) else Zoom)"
    by (simp add: toggleZoomShortcut_def)
  have z: "zoomLevel (toggleZoomShortcut ?s) = (if viewerMode ?s = Zoom then 1 else 3 / 2)"
    by (cases "baseViewerMode ?s")
       (auto simp: toggleZoomShortcut_def handleViewerModeChange_def flashLightboxNotice_def Let_def)
  have p: "panOffset (toggleZoomShortcut ?s) = (0, 0)"
    by (cases "baseViewerMode ?s")
       (auto simp: toggleZoomShortcut_def handleViewerModeChange_def flashLightboxNotice_def Let_def)
  have h: "viewerMode (handleDoubleClick h) = (if viewerMode h = Zoom then Frame else Zoom)
      \<and> zoomLevel (handleDoubleClick h) = (if viewerMode h = Zoom then 1 else 3 / 2)"
    by (simp add: handleDoubleClick_def hookResetZoomState_def)
  from m z p h show ?thesis
    by (simp add: lightboxRun_snoc base_is_lastNonZoom)
qed

theorem toggleZoom_returns_to_base_witness:
  "viewerMode (lightboxRun None [Cycle, ToggleZoom]) = Zoom
   \<and> lastNonZoomMode None [Cycle, ToggleZoom] = Fill
   \<and> viewerMode (lightboxRun None ([Cycle, ToggleZoom] @ [ToggleZoom])) = Fill
   \<and> zoomLevel (lightboxRun None ([Cycle, ToggleZoom] @ [ToggleZoom])) = 1"
proof -
  have a: "viewerMode (lightboxRun None [Cycle, ToggleZoom]) = Zoom"
    by (simp add: lightbox_defs)
  have b: "modeOfBase (baseViewerMode (lightboxRun None [Cycle, ToggleZoom])) = Fill"
    by (simp add: lightbox_defs)
  from toggleZoom_returns_to_base [of None "[Cycle, ToggleZoom]"] a b show ?thesis
    by simp
qed

subsection \<open>fetchAllImages\<close>

lemma pagesUpTo_Suc:
  "pagesUpTo fetch b (Suc k) = pagesUpTo fetch b k @ pageItems fetch b (Suc k)"
  by (simp add: pagesUpTo_def)

lemma pagesUpTo_0 [simp]: "pagesUpTo fetch b 0 = []"
  by (simp add: pagesUpTo_def)

lemma fetchAllLoop_exit:
  "\<not> enat (length itemsNow) < totalNow \<Longrightarrow>
   fetchAllLoop fetch b pageNo totalNow itemsNow = Some (Inr (itemsNow, totalNow))"
  by (subst fetchAllLoop.simps) simp

lemma fetchAllLoop_Inl:
  "enat (length itemsNow) < totalNow \<Longrightarrow> fetch pageNo b = Inl e \<Longrightarrow>
   fetchAllLoop fetch b pageNo totalNow itemsNow = Some (Inl e)"
  by (subst fetchAllLoop.simps) simp

lemma fetchAllLoop_empty:
  "enat (length itemsNow) < totalNow \<Longrightarrow> fetch pageNo b = Inr response \<Longrightarrow> items response = [] \<Longrightarrow>
   fetchAllLoop fetch b pageNo totalNow itemsNow = Some (Inr (itemsNow, total response))"
  by (subst fetchAllLoop.simps) simp

lemma fetchAllLoop_next:
  "enat (length itemsNow) < totalNow \<Longrightarrow> fetch pageNo b = Inr response \<Longrightarrow> items response \<noteq> [] \<Longrightarrow>
   fetchAllLoop fetch b pageNo totalNow itemsNow =
     fetchAllLoop fetch b (pageNo + 1) (total response) (itemsNow @ items response)"
  by (subst fetchAllLoop.simps) simp

lemma fetchAllLoop_settles:
  "pageNo \<le> k \<Longrightarrow> stopsAt fetch b k \<Longrightarrow> itemsNow = pagesUpTo fetch b (pageNo - 1) \<Longrightarrow> 1 \<le> pageNo \<Longrightarrow>
   \<exists>res. fetchAllLoop fetch b pageNo totalNow itemsNow = Some res"
proof (induction "k - pageNo" arbitrary: pageNo totalNow itemsNow)
  case 0
  then have pk: "pageNo = k" by simp
  show ?case
  proof (cases "enat (length itemsNow) < totalNow")
    case False
    then show ?thesis by (simp add: fetchAllLoop_exit)
  next
    case True
    from \<open>stopsAt fetch b k\<close> obtain response where r: "fetch k b = Inr response"
      and st: "items response = [] \<or> total response \<le> enat (length (pagesUpTo fetch b k))"
      by (auto simp: stopsAt_def split: sum.splits)
    show ?thesis
    proof (cases "items response = []")
      case True
      with \<open>enat (length itemsNow) < totalNow\<close> r pk show ?thesis
        by (simp add: fetchAllLoop_empty [where fetch = fetch])
    next
      case False
      have "pagesUpTo fetch b k = itemsNow @ items response"
        using "0.prems"(3,4) pk r pagesUpTo_Suc [of fetch b "k - 1"]
        by (simp add: pageItems_def)
      with st False have "\<not> enat (length (itemsNow @ items response)) < total response"
        by simp
      then have "fetchAllLoop fetch b (k + 1) (total response) (itemsNow @ items response)
          = Some (Inr (itemsNow @ items response, total response))"
        by (rule fetchAllLoop_exit)
      with True r pk False show ?thesis
        by (simp add: fetchAllLoop_next [where fetch = fetch])
    qed
  qed
next
  case (Suc d)
  then have lt: "pageNo < k" by simp
  show ?case
  proof (cases "enat (length itemsNow) < totalNow")
    case False
    then show ?thesis by (simp add: fetchAllLoop_exit)
  next
    case True
    show ?thesis
    proof (cases "fetch pageNo b")
      case (Inl e)
      with True show ?thesis by (simp add: fetchAllLoop_Inl [where fetch = fetch])
    next
      case (Inr response)
      show ?thesis
      proof (cases "items response = []")
        case True
        with \<open>enat (length itemsNow) < totalNow\<close> Inr show ?thesis
          by (simp add: fetchAllLoop_empty [where fetch = fetch])
      next
        case False
        have acc: "itemsNow @ items response = pagesUpTo fetch b (pageNo + 1 - 1)"
          using Suc.prems(3,4) Inr pagesUpTo_Suc [of fetch b "pageNo - 1"]
          by (simp add: pageItems_def)
        have "\<exists>res. fetchAllLoop fetch b (pageNo + 1) (total response) (itemsNow @ items response) = Some res"
        proof (rule Suc.hyps(1))
          show "d = k - (pageNo + 1)" using Suc.hyps(2) by simp
          show "pageNo + 1 \<le> k" using lt by simp
          show "stopsAt fetch b k" by (rule Suc.prems(2))
          show "itemsNow @ items response = pagesUpTo fetch b (pageNo + 1 - 1)" by (rule acc)
          show "1 \<le> pageNo + 1" by simp
        qed
        with True Inr False show ?thesis
          by (simp add: fetchAllLoop_next [where fetch = fetch])
      qed
    qed
  qed
qed

lemma fetchAllImages_Some:
  "fetchAllLoop fetch b 1 \<infinity> [] = Some res \<Longrightarrow> \<exists>res'. fetchAllImages fetch b = Some res'"
  by (cases res) (auto simp: fetchAllImages_def)

lemma fetchAllImages_settles:
  assumes "1 \<le> k" and "stopsAt fetch b k"
  shows "\<exists>res. fetchAllImages fetch b = Some res"
proof -
  have "\<exists>res. fetchAllLoop fetch b 1 \<infinity> [] = Some res"
    using assms by (intro fetchAllLoop_settles [where k = k]) simp_all
  then show ?thesis using fetchAllImages_Some by blast
qed

lemma fetchAllLoop_first_stop:
  "pageNo \<le> k \<Longrightarrow> stopsAt fetch b k \<Longrightarrow> (\<forall>j. pageNo \<le> j \<and> j < k \<longrightarrow> continuesAt fetch b j) \<Longrightarrow>
   fetch k b = Inr lastPage \<Longrightarrow>
   itemsNow = pagesUpTo fetch b (pageNo - 1) \<Longrightarrow> 1 \<le> pageNo \<Longrightarrow> enat (length itemsNow) < totalNow \<Longrightarrow>
   fetchAllLoop fetch b pageNo totalNow itemsNow = Some (Inr (pagesUpTo fetch b k, total lastPage))"
proof (induction "k - pageNo" arbitrary: pageNo totalNow itemsNow)
  case 0
  then have pk: "pageNo = k" by simp
  have up: "pagesUpTo fetch b k = itemsNow @ items lastPage"
    using "0.prems"(4,5,6) pk pagesUpTo_Suc [of fetch b "k - 1"]
    by (simp add: pageItems_def)
  from \<open>stopsAt fetch b k\<close> \<open>fetch k b = Inr lastPage\<close>
  have st: "items lastPage = [] \<or> total lastPage \<le> enat (length (pagesUpTo fetch b k))"
    by (simp add: stopsAt_def)
  show ?case
  proof (cases "items lastPage = []")
    case True
    with "0.prems"(4,7) pk up show ?thesis
      by (simp add: fetchAllLoop_empty [where fetch = fetch])
  next
    case False
    with st up have "\<not> enat (length (itemsNow @ items lastPage)) < total lastPage" by simp
    then have "fetchAllLoop fetch b (k + 1) (total lastPage) (itemsNow @ items lastPage)
        = Some (Inr (itemsNow @ items lastPage, total lastPage))"
      by (rule fetchAllLoop_exit)
    with "0.prems"(4,7) pk False up show ?thesis
      by (simp add: fetchAllLoop_next [where fetch = fetch])
  qed
next
  case (Suc d)
  then have lt: "pageNo < k" by simp
  with Suc.prems(3) have "continuesAt fetch b pageNo" by simp
  then obtain response where r: "fetch pageNo b = Inr response"
    and ne: "items response \<noteq> []"
    and more: "enat (length (pagesUpTo fetch b pageNo)) < total response"
    by (auto simp: continuesAt_def split: sum.splits)
  have acc: "itemsNow @ items response = pagesUpTo fetch b pageNo"
    using Suc.prems(5,6) r pagesUpTo_Suc [of fetch b "pageNo - 1"]
    by (simp add: pageItems_def)
  have "fetchAllLoop fetch b (pageNo + 1) (total response) (itemsNow @ items response)
      = Some (Inr (pagesUpTo fetch b k, total lastPage))"
  proof (rule Suc.hyps(1))
    show "d = k - (pageNo + 1)" using Suc.hyps(2) by simp
    show "pageNo + 1 \<le> k" using lt by simp
    show "stopsAt fetch b k" by (rule Suc.prems(2))
    show "\<forall>j. pageNo + 1 \<le> j \<and> j < k \<longrightarrow> continuesAt fetch b j" using Suc.prems(3) by simp
    show "fetch k b = Inr lastPage" by (rule Suc.prems(4))
    show "itemsNow @ items response = pagesUpTo fetch b (pageNo + 1 - 1)" using acc by simp
    show "1 \<le> pageNo + 1" by simp
    show "enat (length (itemsNow @ items response)) < total response" using more acc by simp
  qed
  with Suc.prems(7) r ne show ?case
    by (simp add: fetchAllLoop_next [where fetch = fetch])
qed

lemma fetchAllLoop_total_infinite:
  assumes run: "fetchAllLoop fetch b pageNo totalNow itemsNow = Some res"
  shows "totalNow = \<infinity> \<longrightarrow> (\<forall>p r. fetch p b = Inr r \<longrightarrow> total r = \<infinity>) \<longrightarrow>
         (\<forall>its t. res = Inr (its, t) \<longrightarrow> t = \<infinity>)"
proof (rule fetchAllLoop.raw_induct
    [where P = "\<lambda>fetch b pageNo totalNow itemsNow res.
       totalNow = \<infinity> \<longrightarrow> (\<forall>p r. fetch p b = Inr r \<longrightarrow> total r = \<infinity>) \<longrightarrow>
       (\<forall>its t. res = Inr (its, t) \<longrightarrow> t = \<infinity>)", OF _ run])
  fix loop :: "'a fetcher \<Rightarrow> nat \<Rightarrow> nat \<Rightarrow> enat \<Rightarrow> 'a list \<Rightarrow> (thrown + 'a list \<times> enat) option"
  fix fetch :: "'a fetcher"
  fix b pageNo :: nat and totalNow :: enat and itemsNow :: "'a list" and res
  assume IH: "\<And>fetch b pageNo totalNow itemsNow res.
      loop fetch b pageNo totalNow itemsNow = Some res \<Longrightarrow>
      totalNow = \<infinity> \<longrightarrow> (\<forall>p r. fetch p b = Inr r \<longrightarrow> total r = \<infinity>) \<longrightarrow>
      (\<forall>its t. res = Inr (its, t) \<longrightarrow> t = \<infinity>)"
  assume eq: "(if enat (length itemsNow) < totalNow
      then case fetch pageNo b of
             Inl e \<Rightarrow> Some (Inl e)
           | Inr response \<Rightarrow>
               if items response = [] then Some (Inr (itemsNow @ items response, total response))
               else loop fetch b (pageNo + 1) (total response) (itemsNow @ items response)
      else Some (Inr (itemsNow, totalNow))) = Some res"
  show "totalNow = \<infinity> \<longrightarrow> (\<forall>p r. fetch p b = Inr r \<longrightarrow> total r = \<infinity>) \<longrightarrow>
      (\<forall>its t. res = Inr (its, t) \<longrightarrow> t = \<infinity>)"
  proof (intro impI allI)
    fix its t
    assume inf: "totalNow = \<infinity>" and all: "\<forall>p r. fetch p b = Inr r \<longrightarrow> total r = \<infinity>"
      and res: "res = Inr (its, t)"
    show "t = \<infinity>"
    proof (cases "fetch pageNo b")
      case (Inl e)
      with eq inf res show ?thesis by simp
    next
      case (Inr response)
      with all have tr: "total response = \<infinity>" by blast
      show ?thesis
      proof (cases "items response = []")
        case True
        with eq Inr tr inf res show ?thesis by simp
      next
        case False
        with eq Inr inf
        have "loop fetch b (pageNo + 1) (total response) (itemsNow @ items response) = Some res"
          by simp
        from IH [OF this] tr all res show ?thesis by blast
      qed
    qed
  qed
qed

lemma fetchAllImages_infinite_total:
  assumes "fetchAllImages fetch b = Some (Inr res)"
    and "\<forall>p r. fetch p b = Inr r \<longrightarrow> total r = \<infinity>"
  shows "total res = enat (length (items res))"
proof -
  from assms(1) obtain its t where loop: "fetchAllLoop fetch b 1 \<infinity> [] = Some (Inr (its, t))"
    and res: "res = \<lparr> items = its, total = (if t \<noteq> \<infinity> then t else enat (length its)) \<rparr>"
    by (auto simp: fetchAllImages_def split: option.splits sum.splits)
  from fetchAllLoop_total_infinite [OF loop] assms(2) have "t = \<infinity>" by blast
  with res show ?thesis by simp
qed

lemma continuesAt_offset7:
  "\<forall>j. 1 \<le> j \<and> j < 3 \<longrightarrow> continuesAt (offsetBackend [0..<7::nat]) 3 j"
proof (intro allI impI)
  fix j :: nat assume "1 \<le> j \<and> j < 3"
  then have "j = 1 \<or> j = 2" by arith
  moreover have "continuesAt (offsetBackend [0..<7::nat]) 3 1" by code_simp
  moreover have "continuesAt (offsetBackend [0..<7::nat]) 3 2" by code_simp
  ultimately show "continuesAt (offsetBackend [0..<7::nat]) 3 j" by blast
qed

text \<open>
  C10. \<^verbatim>\<open>fetchAllImages\<close> settles whenever some page \<open>k\<close> arrives empty or brings the
  accumulated item count up to the total it reports. When page \<open>k\<close> is the first such
  page and the pages before it arrive, the loop exits right after page \<open>k\<close>: the call
  returns the items of pages 1 to \<open>k\<close> and the total of page \<open>k\<close>, or the item count when
  that total is not finite. When no response reports a finite total, a call that returns
  reports the item count as the total.
\<close>

theorem fetchAllImages_terminates:
  "(1 \<le> k \<and> stopsAt fetch b k \<longrightarrow> (\<exists>res. fetchAllImages fetch b = Some res))
   \<and> (1 \<le> k \<and> (\<forall>j. 1 \<le> j \<and> j < k \<longrightarrow> continuesAt fetch b j) \<and> stopsAt fetch b k
        \<and> fetch k b = Inr lastPage \<longrightarrow>
        fetchAllImages fetch b =
          Some (Inr \<lparr> items = pagesUpTo fetch b k,
                      total = (if total lastPage \<noteq> \<infinity> then total lastPage
                               else enat (length (pagesUpTo fetch b k))) \<rparr>))
   \<and> (fetchAllImages fetch b = Some (Inr res) \<and> (\<forall>p r. fetch p b = Inr r \<longrightarrow> total r = \<infinity>) \<longrightarrow>
        total res = enat (length (items res)))"
proof (intro conjI impI)
  assume "1 \<le> k \<and> stopsAt fetch b k"
  then show "\<exists>res. fetchAllImages fetch b = Some res"
    using fetchAllImages_settles by blast
next
  assume h: "1 \<le> k \<and> (\<forall>j. 1 \<le> j \<and> j < k \<longrightarrow> continuesAt fetch b j) \<and> stopsAt fetch b k
        \<and> fetch k b = Inr lastPage"
  have "fetchAllLoop fetch b 1 \<infinity> [] = Some (Inr (pagesUpTo fetch b k, total lastPage))"
    using h by (intro fetchAllLoop_first_stop) simp_all
  then show "fetchAllImages fetch b =
          Some (Inr \<lparr> items = pagesUpTo fetch b k,
                      total = (if total lastPage \<noteq> \<infinity> then total lastPage
                               else enat (length (pagesUpTo fetch b k))) \<rparr>)"
    by (simp add: fetchAllImages_def)
next
  assume "fetchAllImages fetch b = Some (Inr res) \<and> (\<forall>p r. fetch p b = Inr r \<longrightarrow> total r = \<infinity>)"
  then show "total res = enat (length (items res))"
    using fetchAllImages_infinite_total by blast
qed

theorem fetchAllImages_terminates_witness:
  "stopsAt (offsetBackend [0..<7::nat]) 3 3
   \<and> (\<exists>res. fetchAllImages (offsetBackend [0..<7::nat]) 3 = Some res)
   \<and> fetchAllImages (offsetBackend [0..<7::nat]) 3
       = Some (Inr \<lparr> items = [0, 1, 2, 3, 4, 5, 6], total = 7 \<rparr>)
   \<and> fetchAllImages (noTotalBackend [0, 1::nat]) 3 = Some (Inr \<lparr> items = [0, 1], total = 2 \<rparr>)
   \<and> total \<lparr> items = [0, 1::nat], total = 2 \<rparr> = enat (length (items \<lparr> items = [0, 1::nat], total = 2 \<rparr>))"
proof -
  have k: "(1::nat) \<le> 3" by simp
  have st: "stopsAt (offsetBackend [0..<7::nat]) 3 3" by code_simp
  have lp: "offsetBackend [0..<7::nat] 3 3
      = Inr \<lparr> items = [6], total = 7, page = 3, page_size = 3 \<rparr>"
    by code_simp
  have pg: "pagesUpTo (offsetBackend [0..<7::nat]) 3 3 = [0, 1, 2, 3, 4, 5, 6]" by code_simp
  have ret: "fetchAllImages (noTotalBackend [0, 1::nat]) 3 = Some (Inr \<lparr> items = [0, 1], total = 2 \<rparr>)"
    by code_simp
  have inf: "\<forall>p r. noTotalBackend [0, 1::nat] p 3 = Inr r \<longrightarrow> total r = \<infinity>"
    by (auto simp: noTotalBackend_def)
  note a = fetchAllImages_terminates [of 3 "offsetBackend [0..<7::nat]" 3
      "\<lparr> items = [6], total = 7, page = 3, page_size = 3 \<rparr>"]
  note b = fetchAllImages_terminates [of 3 "noTotalBackend [0, 1::nat]" 3 _
      "\<lparr> items = [0, 1], total = 2 \<rparr>"]
  from a k st continuesAt_offset7 lp pg
  have "(\<exists>res. fetchAllImages (offsetBackend [0..<7::nat]) 3 = Some res)
      \<and> fetchAllImages (offsetBackend [0..<7::nat]) 3
         = Some (Inr \<lparr> items = [0, 1, 2, 3, 4, 5, 6], total = 7 \<rparr>)"
    by simp
  moreover from b ret inf
  have "total \<lparr> items = [0, 1::nat], total = 2 \<rparr>
      = enat (length (items \<lparr> items = [0, 1::nat], total = 2 \<rparr>))"
    by blast
  ultimately show ?thesis using st ret by blast
qed

subsection \<open>Gallery loader\<close>

lemma loop_Suc_Inl:
  "fetch p sz = Inl e \<Longrightarrow> loadRemainingPagesLoop (Suc n) fetch cancelled Targ sz p ac prev = []"
  by simp

lemma loop_Suc_Inr:
  "fetch p sz = Inr response \<Longrightarrow>
   loadRemainingPagesLoop (Suc n) fetch cancelled Targ sz p ac prev =
     (if enat (length ac) < Targ \<and> \<not> cancelled (p - 1) \<and> \<not> cancelled p \<and> items response \<noteq> []
      then prev\<lparr> items := ac @ items response \<rparr>
           # loadRemainingPagesLoop n fetch cancelled Targ sz (p + 1) (ac @ items response)
               (prev\<lparr> items := ac @ items response \<rparr>)
      else [])"
  by (simp add: Let_def)

lemma loop_Suc_mem:
  assumes "g \<in> set (loadRemainingPagesLoop (Suc n) fetch cancelled Targ sz p ac prev)"
  obtains response where "fetch p sz = Inr response"
    and "g = prev\<lparr> items := ac @ items response \<rparr> \<or>
       g \<in> set (loadRemainingPagesLoop n fetch cancelled Targ sz (p + 1) (ac @ items response)
                 (prev\<lparr> items := ac @ items response \<rparr>))"
proof (cases "fetch p sz")
  case (Inl e)
  from assms show ?thesis unfolding loop_Suc_Inl [where fetch = fetch, OF Inl] by simp
next
  case (Inr response)
  from assms have "g = prev\<lparr> items := ac @ items response \<rparr> \<or>
       g \<in> set (loadRemainingPagesLoop n fetch cancelled Targ sz (p + 1) (ac @ items response)
                 (prev\<lparr> items := ac @ items response \<rparr>))"
    unfolding loop_Suc_Inr [where fetch = fetch, OF Inr] by (simp split: if_split_asm)
  with Inr that show ?thesis by blast
qed

lemma loop_countInv:
  "total prev = T \<Longrightarrow>
   (\<forall>k\<ge>p. enat (length ac + (\<Sum>j = p..k. pageCount fetch sz j)) \<le> T) \<Longrightarrow>
   g \<in> set (loadRemainingPagesLoop n fetch cancelled Targ sz p ac prev) \<Longrightarrow> countInv g"
proof (induction n arbitrary: p ac prev g)
  case 0
  then show ?case by simp
next
  case (Suc n)
  from Suc.prems(3) obtain response where
    r: "fetch p sz = Inr response"
    and g: "g = prev\<lparr> items := ac @ items response \<rparr> \<or>
      g \<in> set (loadRemainingPagesLoop n fetch cancelled Targ sz (p + 1) (ac @ items response)
                 (prev\<lparr> items := ac @ items response \<rparr>))"
    by (rule loop_Suc_mem)
  have pc: "pageCount fetch sz p = length (items response)"
    by (simp add: pageCount_def r)
  from g show ?case
  proof
    assume "g = prev\<lparr> items := ac @ items response \<rparr>"
    moreover have "enat (length ac + (\<Sum>j = p..p. pageCount fetch sz j)) \<le> T"
      using Suc.prems(2) by blast
    ultimately show ?thesis
      using Suc.prems(1) by (simp add: countInv_def pc)
  next
    assume mem: "g \<in> set (loadRemainingPagesLoop n fetch cancelled Targ sz (p + 1) (ac @ items response)
                 (prev\<lparr> items := ac @ items response \<rparr>))"
    have "\<forall>k\<ge>p + 1. enat (length (ac @ items response) + (\<Sum>j = p + 1..k. pageCount fetch sz j)) \<le> T"
    proof (intro allI impI)
      fix k assume k: "p + 1 \<le> k"
      then have "(\<Sum>j = p..k. pageCount fetch sz j)
          = pageCount fetch sz p + (\<Sum>j = p + 1..k. pageCount fetch sz j)"
        by (simp add: sum.atLeast_Suc_atMost)
      moreover have "enat (length ac + (\<Sum>j = p..k. pageCount fetch sz j)) \<le> T"
        using Suc.prems(2) k by simp
      ultimately show "enat (length (ac @ items response) + (\<Sum>j = p + 1..k. pageCount fetch sz j)) \<le> T"
        by (simp add: pc add.assoc)
    qed
    with Suc.IH [OF _ _ mem] Suc.prems(1) show ?thesis by simp
  qed
qed

lemma load_Inl:
  "fetch 1 30 = Inl e \<Longrightarrow>
   load n fetch cancelled captured prev =
     (if \<not> cancelled 1
      then [prev\<lparr> loading := True, error := None \<rparr>,
            prev\<lparr> loading := False, error := Some (errorMessage e) \<rparr>]
      else [prev\<lparr> loading := True, error := None \<rparr>])"
  by (simp add: load_def)

lemma load_Inr:
  "fetch 1 30 = Inr firstPage \<Longrightarrow>
   load n fetch cancelled captured prev =
     (if cancelled 1 then [prev\<lparr> loading := True, error := None \<rparr>]
      else prev\<lparr> loading := True, error := None \<rparr>
           # \<lparr> items = items firstPage, total = total firstPage, loading = False, error = None \<rparr>
           # (if enat (length (items firstPage)) < total firstPage
              then loadRemainingPagesLoop n fetch cancelled (total firstPage) 60 2 captured
                     \<lparr> items = items firstPage, total = total firstPage, loading = False,
                       error = None \<rparr>
              else []))"
  by (simp add: load_def loadRemainingPages_def Let_def)

lemma load_countInv:
  assumes prev: "countInv prev"
    and srv: "\<And>firstPage k. fetch 1 30 = Inr firstPage \<Longrightarrow>
       enat (length (items firstPage) + (\<Sum>j = 2..k. pageCount fetch 60 j)) \<le> total firstPage"
    and g: "g \<in> set (load n fetch cancelled [] prev)"
  shows "countInv g"
proof (cases "fetch 1 30")
  case (Inl e)
  from g prev show ?thesis
    unfolding load_Inl [where fetch = fetch, OF Inl] by (auto simp: countInv_def split: if_split_asm)
next
  case (Inr firstPage)
  let ?g0 = "prev\<lparr> loading := True, error := None \<rparr>"
  let ?g1 = "\<lparr> items = items firstPage, total = total firstPage, loading = False, error = None \<rparr>"
  have g0: "countInv ?g0" using prev by (simp add: countInv_def)
  have "enat (length (items firstPage) + (\<Sum>j = 2..1. pageCount fetch 60 j)) \<le> total firstPage"
    using srv [OF Inr] .
  then have g1: "countInv ?g1" by (simp add: countInv_def)
  have bg: "countInv h"
    if "h \<in> set (loadRemainingPagesLoop n fetch cancelled (total firstPage) 60 2 [] ?g1)" for h
  proof (rule loop_countInv [OF _ _ that])
    show "total ?g1 = total firstPage" by simp
    show "\<forall>k\<ge>2. enat (length [] + (\<Sum>j = 2..k. pageCount fetch 60 j)) \<le> total firstPage"
    proof (intro allI impI)
      fix k :: nat
      have "enat (\<Sum>j = 2..k. pageCount fetch 60 j)
          \<le> enat (length (items firstPage) + (\<Sum>j = 2..k. pageCount fetch 60 j))"
        by simp
      also have "\<dots> \<le> total firstPage" using srv [OF Inr] .
      finally show "enat (length [] + (\<Sum>j = 2..k. pageCount fetch 60 j)) \<le> total firstPage"
        by simp
    qed
  qed
  from g consider "g = ?g0" | "g = ?g1"
    | "g \<in> set (loadRemainingPagesLoop n fetch cancelled (total firstPage) 60 2 [] ?g1)"
    unfolding load_Inr [where fetch = fetch, OF Inr] by (auto split: if_split_asm)
  then show ?thesis using g0 g1 bg by cases auto
qed

lemma loop_items:
  "g \<in> set (loadRemainingPagesLoop n fetch cancelled Targ sz p ac prev) \<Longrightarrow>
   \<exists>k\<ge>p. items g = ac @ concat (map (pageItems fetch sz) [p..<Suc k])"
proof (induction n arbitrary: p ac prev g)
  case 0
  then show ?case by simp
next
  case (Suc n)
  from Suc.prems obtain response where
    r: "fetch p sz = Inr response"
    and g: "g = prev\<lparr> items := ac @ items response \<rparr> \<or>
      g \<in> set (loadRemainingPagesLoop n fetch cancelled Targ sz (p + 1) (ac @ items response)
                 (prev\<lparr> items := ac @ items response \<rparr>))"
    by (rule loop_Suc_mem)
  have pi: "pageItems fetch sz p = items response"
    by (simp add: pageItems_def r)
  from g show ?case
  proof
    assume "g = prev\<lparr> items := ac @ items response \<rparr>"
    then have "items g = ac @ concat (map (pageItems fetch sz) [p..<Suc p])"
      by (simp add: pi)
    then show ?thesis by blast
  next
    assume "g \<in> set (loadRemainingPagesLoop n fetch cancelled Targ sz (p + 1) (ac @ items response)
                 (prev\<lparr> items := ac @ items response \<rparr>))"
    from Suc.IH [OF this] obtain k where k: "p + 1 \<le> k"
      and it: "items g = (ac @ items response) @ concat (map (pageItems fetch sz) [p + 1..<Suc k])"
      by blast
    from k have "[p..<Suc k] = p # [p + 1..<Suc k]"
      by (simp add: upt_conv_Cons)
    with it pi have "items g = ac @ concat (map (pageItems fetch sz) [p..<Suc k])"
      by simp
    with k show ?thesis by (intro exI [of _ k]) simp
  qed
qed

text \<open>
  C1 fails on the code. A backend with 61 images answers page 1 of size 30 with images
  0 to 29, page 2 of size 60 with image 60 and page 3 with nothing. On mount the loader
  shows the first page and then, because \<^verbatim>\<open>loadRemainingPages\<close> accumulates from the
  \<^verbatim>\<open>gallery.items\<close> its closure captured (empty on mount) and not from the first page,
  replaces it by the items of page 2 alone. The loop was allowed ten iterations and ended
  by itself on the empty page 3. The final list has one item, where the pages fetched
  carried 31, and it is not a prefix of the backend's list.
\<close>

theorem load_drops_first_page:
  "map items (load 10 (offsetBackend [0..<61::nat]) neverCancelled [] initialGallery)
     = [[], [0..<30], [60]]
   \<and> map total (load 10 (offsetBackend [0..<61::nat]) neverCancelled [] initialGallery)
     = [0, 61, 61]
   \<and> pageItems (offsetBackend [0..<61::nat]) 30 1 = [0..<30]
   \<and> pageItems (offsetBackend [0..<61::nat]) 60 2 = [60]
   \<and> pageItems (offsetBackend [0..<61::nat]) 60 3 = []
   \<and> \<not> prefix [60] [0..<61::nat]"
  by code_simp

text \<open>
  C2, as stated, fails: with one image on display, a failing first page leaves that image
  in the list.
\<close>

theorem load_failure_keeps_items:
  "load 10 (failingBackend ''Request failed with status 500'') neverCancelled []
      \<lparr> items = [1::nat], total = 1, loading = False, error = None \<rparr>
   = [\<lparr> items = [1], total = 1, loading = True, error = None \<rparr>,
      \<lparr> items = [1], total = 1, loading = False,
        error = Some ''Request failed with status 500'' \<rparr>]"
  by (simp add: load_def failingBackend_def neverCancelled_def errorMessage_def)

text \<open>
  C2, amended. When the first page fetch fails and the load has not been cancelled, the
  loader sets exactly two states: the previous state with loading on and the error cleared,
  then the previous state with loading off and the error set to the failure message
  (\<^verbatim>\<open>Unknown error\<close> when the thrown value is no \<^verbatim>\<open>Error\<close>). The items and the total are
  those of the previous state; the list is empty only if it was empty before.
\<close>

theorem load_first_page_failure:
  "fetch 1 30 = Inl e \<and> \<not> cancelled 1 \<longrightarrow>
   load n fetch cancelled captured prev =
     [prev\<lparr> loading := True, error := None \<rparr>,
      prev\<lparr> loading := False, error := Some (errorMessage e) \<rparr>]
   \<and> error (last (load n fetch cancelled captured prev)) = Some (errorMessage e)
   \<and> loading (last (load n fetch cancelled captured prev)) = False
   \<and> items (last (load n fetch cancelled captured prev)) = items prev
   \<and> total (last (load n fetch cancelled captured prev)) = total prev"
  by (simp add: load_Inl [where fetch = fetch])

theorem load_first_page_failure_witness:
  "failingBackend ''Request failed with status 500'' 1 30
     = (Inl (Error ''Request failed with status 500'') :: thrown + nat ImageListResponse)
   \<and> \<not> neverCancelled 1
   \<and> error (last (load 10 (failingBackend ''Request failed with status 500'') neverCancelled []
        (initialGallery :: nat GalleryState))) = Some ''Request failed with status 500''
   \<and> loading (last (load 10 (failingBackend ''Request failed with status 500'') neverCancelled []
        (initialGallery :: nat GalleryState))) = False
   \<and> items (last (load 10 (failingBackend ''Request failed with status 500'') neverCancelled []
        (initialGallery :: nat GalleryState))) = []"
proof -
  have a: "failingBackend ''Request failed with status 500'' 1 30
      = (Inl (Error ''Request failed with status 500'') :: thrown + nat ImageListResponse)"
    by (simp add: failingBackend_def)
  have b: "\<not> neverCancelled 1" by (simp add: neverCancelled_def)
  let ?run = "load 10 (failingBackend ''Request failed with status 500'') neverCancelled []
      (initialGallery :: nat GalleryState)"
  from load_first_page_failure [of "failingBackend ''Request failed with status 500''"
      "Error ''Request failed with status 500''" neverCancelled 10 "[]"
      "initialGallery :: nat GalleryState"] a b
  have "error (last ?run) = Some (errorMessage (Error ''Request failed with status 500''))
      \<and> loading (last ?run) = False
      \<and> items (last ?run) = items (initialGallery :: nat GalleryState)"
    by blast
  then have "error (last ?run) = Some ''Request failed with status 500''
      \<and> loading (last ?run) = False \<and> items (last ?run) = []"
    by (simp add: errorMessage_def initialGallery_def)
  with a b show ?thesis by blast
qed

text \<open>
  C3, as stated, fails: the loader takes over whatever the backend answers, and a first
  page with two items and a total of 1 gives a state with more items than the total.
\<close>

theorem load_overfull_counterexample:
  "load 10 overfullBackend neverCancelled [] initialGallery ! 1
     = \<lparr> items = [1, 2], total = 1, loading = False, error = None \<rparr>
   \<and> \<not> countInv (load 10 overfullBackend neverCancelled [] initialGallery ! 1)"
  by code_simp

lemma pageCount_offset61:
  "2 \<le> j \<Longrightarrow> pageCount (offsetBackend [0..<61::nat]) 60 j = (if j = 2 then 1 else 0)"
  by (auto simp: pageCount_def offsetBackend_def)

lemma sum_pageCount_offset61: "(\<Sum>j = 2..k. pageCount (offsetBackend [0..<61::nat]) 60 j) \<le> 1"
proof -
  have "(\<Sum>j = 2..k. pageCount (offsetBackend [0..<61::nat]) 60 j)
      = (\<Sum>j = 2..k. if j = 2 then 1 else 0)"
    by (rule sum.cong) (simp_all add: pageCount_offset61)
  also have "\<dots> \<le> 1" by simp
  finally show ?thesis .
qed

text \<open>
  C3, amended. For a load that starts with no captured items (the load on mount): if the
  state before the load has no more items than its total, and the first page together with
  any number of the background pages carries no more items than the total the first page
  reports, then every gallery state the load sets has no more items than its total.
\<close>

theorem load_count_invariant:
  "countInv prev \<and>
   (\<forall>firstPage k. fetch 1 30 = Inr firstPage \<longrightarrow>
      enat (length (items firstPage) + (\<Sum>j = 2..k. pageCount fetch 60 j)) \<le> total firstPage)
   \<longrightarrow> (\<forall>g \<in> set (load n fetch cancelled [] prev). countInv g)"
  using load_countInv [where fetch = fetch] by blast

theorem load_count_invariant_witness:
  "countInv (initialGallery :: nat GalleryState)
   \<and> \<lparr> items = [60::nat], total = 61, loading = False, error = None \<rparr>
       \<in> set (load 10 (offsetBackend [0..<61::nat]) neverCancelled [] initialGallery)
   \<and> countInv \<lparr> items = [60::nat], total = 61, loading = False, error = None \<rparr>"
proof -
  have a: "countInv (initialGallery :: nat GalleryState)"
    by (simp add: countInv_def initialGallery_def zero_enat_def)
  have b: "\<forall>firstPage k. offsetBackend [0..<61::nat] 1 30 = Inr firstPage \<longrightarrow>
      enat (length (items firstPage) + (\<Sum>j = 2..k. pageCount (offsetBackend [0..<61::nat]) 60 j))
        \<le> total firstPage"
  proof (intro allI impI)
    fix firstPage :: "nat ImageListResponse" and k
    assume "offsetBackend [0..<61::nat] 1 30 = Inr firstPage"
    then have "length (items firstPage) = 30" and "total firstPage = enat 61"
      by (auto simp: offsetBackend_def)
    with sum_pageCount_offset61 [of k]
    show "enat (length (items firstPage) + (\<Sum>j = 2..k. pageCount (offsetBackend [0..<61::nat]) 60 j))
        \<le> total firstPage"
      by simp
  qed
  have c: "\<lparr> items = [60::nat], total = 61, loading = False, error = None \<rparr>
       \<in> set (load 10 (offsetBackend [0..<61::nat]) neverCancelled [] initialGallery)"
    by code_simp
  from load_count_invariant [of initialGallery "offsetBackend [0..<61::nat]" 10 neverCancelled] a b c
  show ?thesis by blast
qed

subsection \<open>Media URLs\<close>

text \<open>
  C9. A path that starts with \<^verbatim>\<open>http://\<close> or \<^verbatim>\<open>https://\<close> is returned unchanged, whatever
  the thumbnail argument and the origin.
\<close>

theorem resolveMediaUrl_absolute:
  "startsWith path ''http://'' \<or> startsWith path ''https://'' \<longrightarrow>
   resolveMediaUrl origin path thumbnail = path"
  by (simp add: resolveMediaUrl_def)

theorem resolveMediaUrl_absolute_witness:
  "startsWith ''https://cdn.example.org/a b.jpg'' ''https://''
   \<and> resolveMediaUrl ''http://localhost:8000'' ''https://cdn.example.org/a b.jpg'' Small
       = ''https://cdn.example.org/a b.jpg''"
proof -
  have h: "startsWith ''https://cdn.example.org/a b.jpg'' ''https://''"
    by code_simp
  from resolveMediaUrl_absolute [of "''https://cdn.example.org/a b.jpg''" "''http://localhost:8000''" Small] h
  show ?thesis by blast
qed

subsection \<open>Timeline grouping\<close>

lemma markGroups_date: "map date (markGroups env previous groups) = map date groups"
  by (induction groups arbitrary: previous) (auto simp: Let_def split: option.splits)

lemma markGroups_length: "length (markGroups env previous groups) = length groups"
  by (induction groups arbitrary: previous) (simp_all add: Let_def)

lemma markGroups_nth_date:
  assumes "i < length groups"
  shows "date (markGroups env previous groups ! i) = date (groups ! i)"
proof -
  have "date (markGroups env previous groups ! i) = map date (markGroups env previous groups) ! i"
    using assms by (simp add: markGroups_length)
  also have "\<dots> = map date groups ! i" by (simp only: markGroups_date)
  also have "\<dots> = date (groups ! i)" using assms by simp
  finally show ?thesis .
qed

lemma markGroups_flags:
  "\<forall>g \<in> set groups. \<not> isNewYear g \<and> \<not> isNewMonth g \<Longrightarrow> i < length groups \<Longrightarrow>
   isNewYear (markGroups env previous groups ! i) =
     (case dateBefore previous groups i of
        None \<Rightarrow> True
      | Some d \<Rightarrow> jsNotEq (fullYearOf env (date (groups ! i))) (fullYearOf env d))
   \<and> isNewMonth (markGroups env previous groups ! i) =
     (isNewYear (markGroups env previous groups ! i)
      \<or> (case dateBefore previous groups i of
            None \<Rightarrow> False
          | Some d \<Rightarrow> jsNotEq (monthOf env (date (groups ! i))) (monthOf env d)))"
proof (induction groups arbitrary: previous i)
  case Nil
  then show ?case by simp
next
  case (Cons current rest)
  define marked where "marked =
        (case previous of
           None \<Rightarrow> current\<lparr> isNewYear := True, isNewMonth := True \<rparr>
         | Some p \<Rightarrow>
             if jsNotEq (fullYearOf env (date current)) (fullYearOf env (date p))
             then current\<lparr> isNewYear := True, isNewMonth := True \<rparr>
             else if jsNotEq (monthOf env (date current)) (monthOf env (date p))
             then current\<lparr> isNewMonth := True \<rparr>
             else current)"
  have unfold: "markGroups env previous (current # rest) = marked # markGroups env (Some marked) rest"
    by (simp add: marked_def Let_def)
  have md: "date marked = date current"
    by (simp add: marked_def split: option.splits)
  from Cons.prems(1) have cur: "\<not> isNewYear current" "\<not> isNewMonth current" by simp_all
  show ?case
  proof (cases i)
    case 0
    then show ?thesis
      using cur by (cases previous) (simp_all add: dateBefore_def Let_def)
  next
    case (Suc j)
    with Cons.prems have j: "j < length rest" and fl: "\<forall>g \<in> set rest. \<not> isNewYear g \<and> \<not> isNewMonth g"
      by simp_all
    have db: "dateBefore (Some marked) rest j = dateBefore previous (current # rest) (Suc j)"
      by (cases j) (simp_all add: dateBefore_def md)
    have nth: "markGroups env previous (current # rest) ! Suc j = markGroups env (Some marked) rest ! j"
      by (simp only: unfold nth_Cons_Suc)
    have gi: "(current # rest) ! Suc j = rest ! j"
      by (simp only: nth_Cons_Suc)
    from Cons.IH [OF fl j, of "Some marked"] show ?thesis
      unfolding Suc nth gi db .
  qed
qed

lemma insertGroup_set: "set (insertGroup x placed) = insert x (set placed)"
  by (induction placed) auto

lemma insertGroup_length: "length (insertGroup x placed) = Suc (length placed)"
  by (induction placed) simp_all

lemma placed_set:
  "set (foldl (\<lambda>placed x. insertGroup x placed) start groups) = set start \<union> set groups"
  by (induction groups arbitrary: start) (auto simp: insertGroup_set)

lemma placed_length:
  "length (foldl (\<lambda>placed x. insertGroup x placed) start groups) = length start + length groups"
  by (induction groups arbitrary: start) (simp_all add: insertGroup_length)

lemma sortGroups_set: "set (sortGroups groups) = set groups"
  by (simp add: sortGroups_def placed_set)

lemma sortGroups_length: "length (sortGroups groups) = length groups"
  by (simp add: sortGroups_def placed_length)

lemma sortCompare_valid:
  "date y = Some ty \<Longrightarrow> date x = Some tx \<Longrightarrow> (0 < sortCompare y x) = (ty < tx)"
  by (simp add: sortCompare_def compareGroups_def jsMinus_def)

lemma insertGroup_sorted:
  assumes "date x \<noteq> None" and "\<forall>y \<in> set placed. date y \<noteq> None"
    and "sorted_wrt (\<lambda>a b. laterFirst b a) placed"
  shows "sorted_wrt (\<lambda>a b. laterFirst b a) (insertGroup x placed)"
  using assms(2,3)
proof (induction placed)
  case Nil
  show ?case by simp
next
  case (Cons y placed)
  from assms(1) obtain tx where tx: "date x = Some tx" by blast
  from Cons.prems(1) obtain ty where ty: "date y = Some ty" by auto
  have rest: "sorted_wrt (\<lambda>a b. laterFirst b a) (insertGroup x placed)"
    using Cons by simp
  have yz: "\<forall>z \<in> set placed. laterFirst z y" using Cons.prems(2) by simp
  show ?case
  proof (cases "0 < sortCompare y x")
    case True
    then have "ty < tx" using sortCompare_valid [OF ty tx] by simp
    then have "laterFirst x y" by (simp add: laterFirst_def tx ty)
    with True rest yz show ?thesis by (simp add: insertGroup_set)
  next
    case False
    then have le: "tx \<le> ty" using sortCompare_valid [OF ty tx] by simp
    then have xy: "laterFirst y x" by (simp add: laterFirst_def tx ty)
    have "\<forall>z \<in> set placed. laterFirst z x"
    proof
      fix z assume z: "z \<in> set placed"
      with yz have "laterFirst z y" by blast
      with le show "laterFirst z x"
        by (auto simp: laterFirst_def tx ty split: option.splits)
    qed
    with False xy Cons.prems(2) show ?thesis by simp
  qed
qed

lemma placed_sorted:
  "\<forall>g \<in> set groups. date g \<noteq> None \<Longrightarrow>
   sorted_wrt (\<lambda>a b. laterFirst b a) (foldl (\<lambda>placed x. insertGroup x placed) [] groups)"
proof (induction groups rule: rev_induct)
  case Nil
  show ?case by simp
next
  case (snoc x groups)
  have "sorted_wrt (\<lambda>a b. laterFirst b a)
      (insertGroup x (foldl (\<lambda>placed x. insertGroup x placed) [] groups))"
  proof (rule insertGroup_sorted)
    show "date x \<noteq> None" using snoc.prems by simp
    show "\<forall>y \<in> set (foldl (\<lambda>placed x. insertGroup x placed) [] groups). date y \<noteq> None"
      using snoc.prems by (simp add: placed_set)
    show "sorted_wrt (\<lambda>a b. laterFirst b a) (foldl (\<lambda>placed x. insertGroup x placed) [] groups)"
      using snoc by simp
  qed
  then show ?case by simp
qed

lemma sortGroups_sorted:
  "\<forall>g \<in> set groups. date g \<noteq> None \<Longrightarrow> sorted_wrt laterFirst (sortGroups groups)"
  unfolding sortGroups_def by (simp only: sorted_wrt_rev placed_sorted)

lemma sorted_laterFirst_dates:
  "sorted_wrt laterFirst xs =
     sorted_wrt (\<lambda>da db. case (da, db) of (Some ta, Some tb) \<Rightarrow> tb \<le> ta | _ \<Rightarrow> False)
       (map date xs)"
proof -
  have l: "laterFirst =
      (\<lambda>a b. case (date a, date b) of (Some ta, Some tb) \<Rightarrow> tb \<le> ta | _ \<Rightarrow> False)"
    by (simp add: laterFirst_def fun_eq_iff)
  show ?thesis by (simp only: l sorted_wrt_map)
qed

lemma laterFirst_date_cong:
  assumes "map date xs = map date ys"
  shows "sorted_wrt laterFirst xs = sorted_wrt laterFirst ys"
  by (simp only: sorted_laterFirst_dates assms)

lemma makeGroup_unmarked: "\<not> isNewYear (makeGroup env entry) \<and> \<not> isNewMonth (makeGroup env entry)"
  by (simp add: makeGroup_def Let_def)

lemma makeGroup_date: "date (makeGroup env entry) = parseDate env (fst entry)"
  by (simp add: makeGroup_def Let_def)

lemma sortGroups_unmarked:
  "\<forall>g \<in> set (sortGroups (map (makeGroup env) entries)). \<not> isNewYear g \<and> \<not> isNewMonth g"
proof
  fix g assume "g \<in> set (sortGroups (map (makeGroup env) entries))"
  then have "g \<in> set (map (makeGroup env) entries)"
    by (simp only: sortGroups_set)
  then obtain entry where "g = makeGroup env entry" by auto
  then show "\<not> isNewYear g \<and> \<not> isNewMonth g"
    by (simp only: makeGroup_unmarked simp_thms)
qed

lemma timelineGroups_flags:
  assumes "i < length (timelineGroups env imgs)"
  shows "isNewYear (timelineGroups env imgs ! i) = yearFlag env (timelineGroups env imgs) i
    \<and> isNewMonth (timelineGroups env imgs ! i) = monthFlag env (timelineGroups env imgs) i"
proof -
  define gs where "gs = sortGroups (map (makeGroup env) (groupByDay env imgs))"
  define rs where "rs = timelineGroups env imgs"
  have rs: "rs = markGroups env None gs" by (simp add: rs_def gs_def timelineGroups_def)
  from assms have i: "i < length gs" by (simp add: rs_def [symmetric] rs markGroups_length)
  have un: "\<forall>g \<in> set gs. \<not> isNewYear g \<and> \<not> isNewMonth g"
    unfolding gs_def by (rule sortGroups_unmarked)
  have di: "date (rs ! k) = date (gs ! k)" if "k < length gs" for k
    unfolding rs using that by (rule markGroups_nth_date)
  note fl = markGroups_flags [OF un i, where previous = None and env = env, folded rs]
  have goal: "isNewYear (rs ! i) = yearFlag env rs i \<and> isNewMonth (rs ! i) = monthFlag env rs i"
  proof (cases i)
    case 0
    have "dateBefore None gs 0 = None" by (simp add: dateBefore_def)
    with fl 0 have "isNewYear (rs ! 0)" and "isNewMonth (rs ! 0)" by simp_all
    with 0 show ?thesis by (simp add: yearFlag_def monthFlag_def)
  next
    case (Suc j)
    with i have j: "j < length gs" by simp
    have db: "dateBefore None gs (Suc j) = Some (date (rs ! j))"
      by (simp add: dateBefore_def di [OF j])
    have y: "isNewYear (rs ! Suc j) =
        jsNotEq (fullYearOf env (date (rs ! Suc j))) (fullYearOf env (date (rs ! j)))"
      using fl i unfolding Suc db by (simp add: di)
    have m: "isNewMonth (rs ! Suc j) =
        (isNewYear (rs ! Suc j) \<or> jsNotEq (monthOf env (date (rs ! Suc j))) (monthOf env (date (rs ! j))))"
      using fl i unfolding Suc db by (simp add: di)
    show ?thesis
      unfolding Suc yearFlag_def monthFlag_def using y m by auto
  qed
  then show ?thesis by (simp add: rs_def)
qed

lemma pushImage_keys:
  "map fst (pushImage k img entries) =
     (if k \<in> set (map fst entries) then map fst entries else map fst entries @ [k])"
  by (induction entries) fastforce+

lemma pushImage_map_of:
  "map_of (pushImage k img entries) =
     (map_of entries)(k \<mapsto> (case map_of entries k of None \<Rightarrow> [img] | Some imgs \<Rightarrow> imgs @ [img]))"
  by (induction entries) (auto simp: fun_eq_iff)

lemma groupByDay_snoc:
  "groupByDay env (imgs @ [img]) = pushImage (dayKey env img) img (groupByDay env imgs)"
  by (simp add: groupByDay_def)

lemma groupByDay_distinct: "distinct (map fst (groupByDay env imgs))"
proof (induction imgs rule: rev_induct)
  case Nil
  show ?case by (simp add: groupByDay_def)
next
  case (snoc img imgs)
  then show ?case by (simp add: groupByDay_snoc pushImage_keys)
qed

lemma groupByDay_map_of:
  "map_of (groupByDay env imgs) k =
     (if k \<in> dayKey env ` set imgs then Some (filter (\<lambda>img. dayKey env img = k) imgs) else None)"
proof (induction imgs rule: rev_induct)
  case Nil
  show ?case by (simp add: groupByDay_def)
next
  case (snoc img imgs)
  show ?case
  proof (cases "dayKey env img = k")
    case True
    with snoc show ?thesis
      by (auto simp: groupByDay_snoc pushImage_map_of filter_empty_conv image_iff)
  next
    case False
    with snoc show ?thesis
      by (auto simp: groupByDay_snoc pushImage_map_of image_iff)
  qed
qed

lemma groupByDay_entry:
  "(k, imgsOfDay) \<in> set (groupByDay env imgs) \<longleftrightarrow>
     k \<in> dayKey env ` set imgs \<and> imgsOfDay = filter (\<lambda>img. dayKey env img = k) imgs"
proof -
  have "(k, imgsOfDay) \<in> set (groupByDay env imgs) \<longleftrightarrow> map_of (groupByDay env imgs) k = Some imgsOfDay"
    using groupByDay_distinct by (simp add: map_of_eq_Some_iff)
  then show ?thesis by (auto simp: groupByDay_map_of)
qed

lemma timelineGroups_sorted:
  assumes "validDays env imgs"
  shows "sorted_wrt laterFirst (timelineGroups env imgs)"
proof -
  let ?gs = "map (makeGroup env) (groupByDay env imgs)"
  have "\<forall>g \<in> set ?gs. date g \<noteq> None"
  proof
    fix g assume "g \<in> set ?gs"
    then obtain entry where e: "entry \<in> set (groupByDay env imgs)" and g: "g = makeGroup env entry"
      by auto
    from e have "(fst entry, snd entry) \<in> set (groupByDay env imgs)" by simp
    then have "fst entry \<in> dayKey env ` set imgs" by (simp only: groupByDay_entry)
    with assms have "parseDate env (fst entry) \<noteq> None" by (auto simp: validDays_def)
    with g show "date g \<noteq> None" by (simp add: makeGroup_date)
  qed
  then have "sorted_wrt laterFirst (sortGroups ?gs)" by (rule sortGroups_sorted)
  then show ?thesis
    unfolding timelineGroups_def by (simp only: laterFirst_date_cong [OF markGroups_date])
qed

lemma markGroups_entries: "map entryOf (markGroups env previous groups) = map entryOf groups"
  by (induction groups arbitrary: previous) (auto simp: Let_def entryOf_def split: option.splits)

lemma entryOf_makeGroup: "entryOf (makeGroup env entry) = entry"
  by (simp add: entryOf_def makeGroup_def Let_def)

lemma count_makeGroup: "count (makeGroup env entry) = length (images (makeGroup env entry))"
  by (simp add: makeGroup_def Let_def)

lemma sortGroups_distinct_keys:
  assumes "distinct (map key groups)"
  shows "distinct (map key (sortGroups groups))"
proof -
  have "card (set (map key (sortGroups groups))) = card (set (map key groups))"
    by (simp add: sortGroups_set)
  also have "\<dots> = length (map key groups)" using assms by (rule distinct_card)
  also have "\<dots> = length (map key (sortGroups groups))" by (simp add: sortGroups_length)
  finally show ?thesis by (rule card_distinct)
qed

lemma timelineGroups_entries:
  "set (map entryOf (timelineGroups env imgs)) = set (groupByDay env imgs)
   \<and> distinct (map key (timelineGroups env imgs))"
proof -
  let ?gs = "map (makeGroup env) (groupByDay env imgs)"
  have e: "map entryOf ?gs = groupByDay env imgs"
    by (simp add: entryOf_makeGroup comp_def)
  have me: "map entryOf (timelineGroups env imgs) = map entryOf (sortGroups ?gs)"
    by (simp add: timelineGroups_def markGroups_entries)
  have "set (map entryOf (sortGroups ?gs)) = entryOf ` set ?gs"
    by (simp add: sortGroups_set)
  also have "\<dots> = set (map entryOf ?gs)" by (simp only: set_map)
  finally have s: "set (map entryOf (timelineGroups env imgs)) = set (groupByDay env imgs)"
    by (simp only: me e)
  have k: "map key xs = map fst (map entryOf xs)" for xs
    by (simp add: entryOf_def comp_def)
  have "distinct (map fst (map entryOf ?gs))"
    by (simp only: e groupByDay_distinct)
  then have "distinct (map key ?gs)" by (simp only: k)
  then have "distinct (map key (sortGroups ?gs))" by (rule sortGroups_distinct_keys)
  then have "distinct (map fst (map entryOf (sortGroups ?gs)))" by (simp only: k)
  then have "distinct (map key (timelineGroups env imgs))" by (simp only: k me)
  with s show ?thesis by blast
qed

lemma markGroups_count_images:
  "\<forall>h \<in> set groups. count h = length (images h) \<Longrightarrow>
   \<forall>h \<in> set (markGroups env previous groups). count h = length (images h)"
  by (induction groups arbitrary: previous) (auto simp: Let_def split: option.splits)

lemma timelineGroups_count:
  "\<forall>g \<in> set (timelineGroups env imgs). count g = length (images g)"
  unfolding timelineGroups_def
  by (rule markGroups_count_images) (auto simp: sortGroups_set count_makeGroup)

lemma timelineGroups_day_groups:
  "distinct (map key (timelineGroups env imgs))
   \<and> key ` set (timelineGroups env imgs) = dayKey env ` set imgs
   \<and> (\<forall>g \<in> set (timelineGroups env imgs).
         images g = filter (\<lambda>img. dayKey env img = key g) imgs \<and> count g = length (images g))"
proof -
  have ent: "set (map entryOf (timelineGroups env imgs)) = set (groupByDay env imgs)"
    and dist: "distinct (map key (timelineGroups env imgs))"
    using timelineGroups_entries by blast+
  have mem: "g \<in> set (timelineGroups env imgs) \<Longrightarrow> (key g, images g) \<in> set (groupByDay env imgs)" for g
    using ent by (auto simp: entryOf_def)
  have keys: "key ` set (timelineGroups env imgs) = dayKey env ` set imgs"
  proof (intro set_eqI iffI)
    fix k assume "k \<in> key ` set (timelineGroups env imgs)"
    then obtain g where "g \<in> set (timelineGroups env imgs)" and "k = key g" by blast
    with mem [of g] show "k \<in> dayKey env ` set imgs"
      by (simp add: groupByDay_entry)
  next
    fix k assume "k \<in> dayKey env ` set imgs"
    then have "(k, filter (\<lambda>img. dayKey env img = k) imgs) \<in> set (groupByDay env imgs)"
      by (simp add: groupByDay_entry)
    then have "(k, filter (\<lambda>img. dayKey env img = k) imgs) \<in> entryOf ` set (timelineGroups env imgs)"
      by (simp only: ent [symmetric] set_map)
    then obtain g where "g \<in> set (timelineGroups env imgs)"
      and "entryOf g = (k, filter (\<lambda>img. dayKey env img = k) imgs)"
      by (metis imageE)
    then show "k \<in> key ` set (timelineGroups env imgs)"
      by (auto simp: entryOf_def image_iff)
  qed
  have imgs: "\<forall>g \<in> set (timelineGroups env imgs).
      images g = filter (\<lambda>img. dayKey env img = key g) imgs \<and> count g = length (images g)"
  proof
    fix g assume g: "g \<in> set (timelineGroups env imgs)"
    from mem [OF g] have "images g = filter (\<lambda>img. dayKey env img = key g) imgs"
      by (simp add: groupByDay_entry)
    with g timelineGroups_count show
      "images g = filter (\<lambda>img. dayKey env img = key g) imgs \<and> count g = length (images g)"
      by blast
  qed
  from dist keys imgs show ?thesis by blast
qed

lemmas timeline_eval = timelineGroups_def groupByDay_def dayKey_def makeGroup_def sortGroups_def
  sortCompare_def compareGroups_def jsMinus_def jsPlus_def jsNotEq_def fullYearOf_def monthOf_def
  dayOfMonthOf_def dateStringOf_def longDayLabelOf_def shortMonthLabelOf_def stringOfNumber_def
  exampleEnv_def stringOfInt_def padStart2_def stringOfNat.simps Let_def

text \<open>
  C7, as stated, fails on the code: an image whose \<^verbatim>\<open>modified_at\<close> is no date gets the
  day key \<^verbatim>\<open>NaN-NaN-NaN\<close> and a group with an invalid date. The comparison with that group
  is \<^verbatim>\<open>NaN\<close>, read as 0, so the sort leaves the three groups in insertion order: 5 January,
  the invalid date, 10 February. The group of 5 January stands before the group of
  10 February, which is not date descending.
\<close>

theorem timelineGroups_undated_counterexample:
  "map key (timelineGroups exampleEnv undatedImages)
     = [''2025-01-05'', ''NaN-NaN-NaN'', ''2025-02-10'']
   \<and> map date (timelineGroups exampleEnv undatedImages)
     = [Some 1736035200000, None, Some 1739145600000]
   \<and> \<not> sorted_wrt laterFirst (timelineGroups exampleEnv undatedImages)"
proof -
  have k: "map key (timelineGroups exampleEnv undatedImages)
      = [''2025-01-05'', ''NaN-NaN-NaN'', ''2025-02-10'']
    \<and> map date (timelineGroups exampleEnv undatedImages)
      = [Some 1736035200000, None, Some 1739145600000]"
    by (simp add: timeline_eval undatedImages_def)
  have "sorted_wrt laterFirst (timelineGroups exampleEnv undatedImages)
      = sorted_wrt (\<lambda>da db. case (da, db) of (Some ta, Some tb) \<Rightarrow> tb \<le> ta | _ \<Rightarrow> False)
          (map date (timelineGroups exampleEnv undatedImages))"
    by (rule sorted_laterFirst_dates)
  also have "\<dots> = False" by (simp add: k)
  finally show ?thesis using k by simp
qed

text \<open>
  C7, amended. For every image list whose day keys all parse to valid dates (which an
  unparseable \<^verbatim>\<open>modified_at\<close> prevents), the groups come out sorted by date descending.
  For every image list, with the year and the month of a group read from its \<open>date\<close>
  field (the date parsed back from the day key, by \<^verbatim>\<open>getFullYear()\<close> and
  \<^verbatim>\<open>getMonth()\<close>) and compared with \<^verbatim>\<open>!==\<close>, a group is marked as a new year exactly
  when it is the first group or its year differs from the year of the group before it,
  and as a new month exactly when its month differs from the month of the group before it
  or it is marked as a new year. The groups are the day groups of the list: one group for
  each day key that occurs, holding the images with that key in their input order.
\<close>

theorem timelineGroups_sorted_and_marked:
  "(validDays env imgs \<longrightarrow> sorted_wrt laterFirst (timelineGroups env imgs))
   \<and> (\<forall>i < length (timelineGroups env imgs).
         isNewYear (timelineGroups env imgs ! i) = yearFlag env (timelineGroups env imgs) i
         \<and> isNewMonth (timelineGroups env imgs ! i) = monthFlag env (timelineGroups env imgs) i)
   \<and> distinct (map key (timelineGroups env imgs))
   \<and> key ` set (timelineGroups env imgs) = dayKey env ` set imgs
   \<and> (\<forall>g \<in> set (timelineGroups env imgs).
         images g = filter (\<lambda>img. dayKey env img = key g) imgs \<and> count g = length (images g))"
proof -
  have "\<forall>i < length (timelineGroups env imgs).
         isNewYear (timelineGroups env imgs ! i) = yearFlag env (timelineGroups env imgs) i
         \<and> isNewMonth (timelineGroups env imgs ! i) = monthFlag env (timelineGroups env imgs) i"
    using timelineGroups_flags by blast
  with timelineGroups_sorted [of env imgs] timelineGroups_day_groups [of env imgs]
  show ?thesis by blast
qed

theorem timelineGroups_sorted_and_marked_witness:
  "validDays exampleEnv exampleImages
   \<and> sorted_wrt laterFirst (timelineGroups exampleEnv exampleImages)
   \<and> map key (timelineGroups exampleEnv exampleImages) = [''2025-02-10'', ''2025-01-05'']
   \<and> map isNewYear (timelineGroups exampleEnv exampleImages) = [True, False]
   \<and> map isNewMonth (timelineGroups exampleEnv exampleImages) = [True, True]
   \<and> (1::nat) < length (timelineGroups exampleEnv exampleImages)
   \<and> isNewYear (timelineGroups exampleEnv exampleImages ! 1)
       = yearFlag exampleEnv (timelineGroups exampleEnv exampleImages) 1
   \<and> isNewMonth (timelineGroups exampleEnv exampleImages ! 1)
       = monthFlag exampleEnv (timelineGroups exampleEnv exampleImages) 1"
proof -
  have v: "validDays exampleEnv exampleImages"
    by (simp add: validDays_def timeline_eval exampleImages_def)
  have a: "map key (timelineGroups exampleEnv exampleImages) = [''2025-02-10'', ''2025-01-05'']
      \<and> map isNewYear (timelineGroups exampleEnv exampleImages) = [True, False]
      \<and> map isNewMonth (timelineGroups exampleEnv exampleImages) = [True, True]"
    by (simp add: timeline_eval exampleImages_def)
  then have "length (map key (timelineGroups exampleEnv exampleImages)) = 2"
    by simp
  then have d: "(1::nat) < length (timelineGroups exampleEnv exampleImages)"
    by simp
  from timelineGroups_sorted_and_marked [of exampleEnv exampleImages] v d
  have "sorted_wrt laterFirst (timelineGroups exampleEnv exampleImages)
     \<and> isNewYear (timelineGroups exampleEnv exampleImages ! 1)
       = yearFlag exampleEnv (timelineGroups exampleEnv exampleImages) 1
     \<and> isNewMonth (timelineGroups exampleEnv exampleImages ! 1)
       = monthFlag exampleEnv (timelineGroups exampleEnv exampleImages) 1"
    by blast
  with v a d show ?thesis by blast
qed

end
